theory Spec2Isabelle
  imports
    Main
    "HOL-Library.Char_ord"
    "HOL-Library.List_Lexorder"
    "HOL-Library.Product_Lexorder"
    "HOL-Library.AList"
    "HOL-Library.Multiset"
begin

section \<open>Strings\<close>

text \<open>
  Python's \<^verbatim>\<open>pattern in path\<close> on two strings is substring containment.
  \<open>startswith\<close> is \<^verbatim>\<open>str.startswith\<close>; \<open>contains p s\<close> is \<^verbatim>\<open>p in s\<close>.
\<close>

fun startswith :: "string \<Rightarrow> string \<Rightarrow> bool" where
  "startswith s [] = True"
| "startswith [] (p # ps) = False"
| "startswith (c # cs) (p # ps) = (c = p \<and> startswith cs ps)"

fun contains :: "string \<Rightarrow> string \<Rightarrow> bool" where
  "contains p [] = (p = [])"
| "contains p (c # cs) = (startswith (c # cs) p \<or> contains p cs)"

section \<open>PathFilter: \<^verbatim>\<open>BackupManager.isValid\<close>\<close>

text \<open>
  \<^verbatim>\<open>
  def isValid(self, path:Path):
      path = str(path) + '/' if path.is_dir() else str(path)
      res = any(pattern in path for pattern in self.__allowlist)
      return res if res else not any(pattern in path for pattern in self.__denylist)
  \<close>
  The two pattern sets are the session's \<^verbatim>\<open>__allowlist\<close> and \<^verbatim>\<open>__denylist\<close>;
  \<open>path\<close> is \<^verbatim>\<open>str(path)\<close> and \<open>is_dir\<close> is \<^verbatim>\<open>path.is_dir()\<close>.
\<close>

definition isValid :: "string set \<Rightarrow> string set \<Rightarrow> string \<Rightarrow> bool \<Rightarrow> bool" where
  "isValid allowlist denylist path is_dir =
     (let path' = (if is_dir then path @ ''/'' else path);
          res = (\<exists>pattern \<in> allowlist. contains pattern path')
      in if res then res else \<not> (\<exists>pattern \<in> denylist. contains pattern path'))"

text \<open>The string that \<^verbatim>\<open>isValid\<close> evaluates.\<close>

definition evaluated :: "string \<Rightarrow> bool \<Rightarrow> string" where
  "evaluated path is_dir = (if is_dir then path @ ''/'' else path)"

section \<open>The target tree\<close>

text \<open>
  The file tree under the target, as \<^verbatim>\<open>pathlib\<close> shows it: each node carries its final
  path component (\<^verbatim>\<open>path.name\<close>) and what \<^verbatim>\<open>os.path.getsize\<close> reports for it; a directory
  carries its \<^verbatim>\<open>iterdir()\<close> listing, in the order in which the operating system happens
  to return it. \<open>Other\<close> is a path for which both \<^verbatim>\<open>is_file()\<close> and \<^verbatim>\<open>is_dir()\<close> are false
  (a socket, a device, a dangling link, a path that does not exist). The tree is finite:
  a cycle of links, on which the source would recurse until the operating system refuses
  the path, is outside the model.
\<close>

datatype error = OSError | ValueError | KeyError | TypeError | AttributeError | JSONDecodeError

datatype node = File string nat | Dir string nat "node list" | Other string

fun name :: "node \<Rightarrow> string" where
  "name (File n sz) = n"
| "name (Dir n sz paths) = n"
| "name (Other n) = n"

fun is_file :: "node \<Rightarrow> bool" where
  "is_file (File n sz) = True"
| "is_file nd = False"

fun is_dir :: "node \<Rightarrow> bool" where
  "is_dir (Dir n sz paths) = True"
| "is_dir nd = False"

text \<open>
  \<open>joinpath p n\<close> is \<^verbatim>\<open>str(Path(p) / n)\<close> for the string \<open>p\<close> of a path and a single
  component \<open>n\<close>: the root keeps its one separator and the current directory \<^verbatim>\<open>.\<close>
  disappears. \<open>arcpath parent n\<close> is the new value of \<^verbatim>\<open>parent\<close> in \<^verbatim>\<open>__namelist\<close>:
  \<^verbatim>\<open>Path(path.name)\<close> when \<^verbatim>\<open>parent is None\<close> (the empty name of the root gives \<^verbatim>\<open>.\<close>),
  \<^verbatim>\<open>parent / path.name\<close> otherwise.
\<close>

definition joinpath :: "string \<Rightarrow> string \<Rightarrow> string" where
  "joinpath p n = (if p = ''.'' then n else if p = ''/'' then ''/'' @ n else p @ ''/'' @ n)"

definition arcpath :: "string option \<Rightarrow> string \<Rightarrow> string" where
  "arcpath parent n =
     (case parent of None \<Rightarrow> (if n = [] then ''.'' else n) | Some q \<Rightarrow> joinpath q n)"

section \<open>TreeEnumerator: \<^verbatim>\<open>BackupManager.__namelist\<close>\<close>

text \<open>
  A generator either runs to its end or stops at an exception. \<open>yield_from\<close> runs
  generators one after the other, as consecutive \<^verbatim>\<open>yield from\<close> statements do; \<open>yields\<close>
  reads what a finished generator produced.
\<close>

fun yield_from :: "(error + 'a list) list \<Rightarrow> error + 'a list" where
  "yield_from [] = Inr []"
| "yield_from (Inl e # rs) = Inl e"
| "yield_from (Inr xs # rs) =
     (case yield_from rs of Inl e \<Rightarrow> Inl e | Inr ys \<Rightarrow> Inr (xs @ ys))"

definition yields :: "error + 'a list \<Rightarrow> 'a list" where
  "yields r = (case r of Inl e \<Rightarrow> [] | Inr ys \<Rightarrow> ys)"

text \<open>
  \<^verbatim>\<open>
  def __namelist(self, path:Path, parent:Path=None):
      if not self.isValid(path):
          return
      if parent is None:
          parent = Path(path.name)
      else:
          parent = parent/path.name
      if path.is_file():
          yield str(path), str(parent)
          return
      paths = [p for p in path.iterdir()]
      files = sorted([f for f in paths if f.is_file()], key=lambda x:x.name)
      folders = sorted([d for d in paths if d.is_dir()], key=lambda x:x.name)
      yield str(path)+'/', str(parent)+'/'
      for file in files:
          yield from self.__namelist(file, parent)
      del files
      for folder in folders:
          yield from self.__namelist(folder, parent)
  \<close>
  \<open>A\<close> and \<open>D\<close> are the session's allow and deny sets, \<open>path\<close> is \<^verbatim>\<open>str(path)\<close> and the node
  is what the file system holds at that path. \<^verbatim>\<open>iterdir()\<close> raises on a path that is not a
  directory. \<^verbatim>\<open>sorted\<close> is stable, as \<open>sort_key\<close> is, and compares the names as strings,
  character by character.
\<close>

fun namelist :: "string set \<Rightarrow> string set \<Rightarrow> string \<Rightarrow> string option \<Rightarrow> node
    \<Rightarrow> error + (string \<times> string) list" where
  "namelist A D path parent (File n sz) =
     (if \<not> isValid A D path False then Inr []
      else Inr [(path, arcpath parent n)])"
| "namelist A D path parent (Other n) =
     (if \<not> isValid A D path False then Inr []
      else Inl OSError)"
| "namelist A D path parent (Dir n sz paths) =
     (if \<not> isValid A D path True then Inr []
      else
        let parent' = arcpath parent n;
            files = sort_key name (filter is_file paths);
            folders = sort_key name (filter is_dir paths)
        in yield_from
             (Inr [(path @ ''/'', parent' @ ''/'')]
              # map (\<lambda>file. namelist A D (joinpath path (name file)) (Some parent') file) files
              @ map (\<lambda>folder. namelist A D (joinpath path (name folder)) (Some parent') folder)
                  folders))"

text \<open>
  What a file system guarantees of a listing: the names of a directory's entries are not
  empty, hold no separator and are pairwise different.
\<close>

fun wf_tree :: "node \<Rightarrow> bool" where
  "wf_tree (Dir n sz paths) =
     (distinct (map name paths)
      \<and> list_all (\<lambda>c. name c \<noteq> [] \<and> CHR ''/'' \<notin> set (name c) \<and> wf_tree c) paths)"
| "wf_tree nd = True"

text \<open>
  \<open>subnodes path nd\<close> lists the node at \<open>path\<close> and every node below it, each with the
  string of its own path.
\<close>

fun subnodes :: "string \<Rightarrow> node \<Rightarrow> (string \<times> node) list" where
  "subnodes path (Dir n sz paths) =
     (path, Dir n sz paths) # concat (map (\<lambda>c. subnodes (joinpath path (name c)) c) paths)"
| "subnodes path nd = [(path, nd)]"

text \<open>
  \<open>canon\<close> sorts every listing of a tree by name: two trees with the same \<open>canon\<close> are one
  tree whose directories were listed in different orders.
\<close>

fun canon :: "node \<Rightarrow> node" where
  "canon (Dir n sz paths) = Dir n sz (sort_key name (map canon paths))"
| "canon nd = nd"

text \<open>\<^verbatim>\<open>DEFAULT_DENYLIST = {'__pycache__', '.vscode', '.zip', }\<close>\<close>

definition DEFAULT_DENYLIST :: "string set" where
  "DEFAULT_DENYLIST = {''__pycache__'', ''.vscode'', ''.zip''}"

text \<open>A small project tree, and the same tree as another listing order shows it.\<close>

definition project :: node where
  "project = Dir ''proj'' 4096
     [Dir ''src'' 4096 [File ''b.py'' 10, File ''a.py'' 5],
      File ''z.txt'' 1,
      Dir ''__pycache__'' 4096 [File ''keep.pyc'' 3],
      File ''README'' 2]"

definition project_relisted :: node where
  "project_relisted = Dir ''proj'' 4096
     [File ''README'' 2,
      Dir ''__pycache__'' 4096 [File ''keep.pyc'' 3],
      File ''z.txt'' 1,
      Dir ''src'' 4096 [File ''a.py'' 5, File ''b.py'' 10]]"

section \<open>The session\<close>

text \<open>
  A date as \<^verbatim>\<open>datetime\<close> holds it. The dates the program compares are parsed from file
  names, so their time of day is midnight; of \<^verbatim>\<open>datetime.now()\<close> the program reads the
  year, the month and the day only.
\<close>

record datetime =
  year :: nat
  month :: nat
  day :: nat

text \<open>
  A JSON value, as \<^verbatim>\<open>json.load\<close> returns it and \<^verbatim>\<open>json.dump\<close> writes it (numbers are
  integers here). An object keeps its keys in order, as a Python \<^verbatim>\<open>dict\<close> does.
\<close>

datatype json = JNull | JBool bool | JInt int | JStr string | JList "json list"
  | JObj "(string \<times> json) list"

text \<open>
  The attributes of a \<^verbatim>\<open>BackupManager\<close>. The name-mangled private attributes
  (\<^verbatim>\<open>self.__target\<close>, ...) and \<^verbatim>\<open>self._cache\<close> are typed fields: paths are the strings
  \<^verbatim>\<open>str\<close> gives, \<^verbatim>\<open>arcname\<close> is \<^verbatim>\<open>self.__arcname\<close> (with its \<^verbatim>\<open>.zip\<close>), \<^verbatim>\<open>today\<close> is \<open>None\<close> for
  a dateless session. \<open>attrs\<close> is the rest of the instance's \<^verbatim>\<open>__dict__\<close>, in insertion
  order: the public attribute \<^verbatim>\<open>auto_clean\<close> and every other key a config record brought.
\<close>

record session =
  target :: string
  save :: string
  required_config :: bool
  dateless :: bool
  today :: "datetime option"
  arcname :: string
  allowlist :: "string set"
  denylist :: "string set"
  cache :: string
  preview :: bool
  depth_counter :: nat
  attrs :: "(string \<times> json) list"

section \<open>RetentionManager: \<^verbatim>\<open>__find_files\<close> and \<^verbatim>\<open>__auto_clean\<close>\<close>

text \<open>
  \<^verbatim>\<open>int(s)\<close> on a string that holds no minus sign (the strings come from a split at the
  minus signs): white space around the number is dropped, a plus sign may lead, and the
  digits may be grouped by single underscores. \<open>None\<close> is \<^verbatim>\<open>ValueError\<close>. The white space
  that \<^verbatim>\<open>int\<close> drops from an ASCII string is tab, line feed, vertical tab, form feed,
  carriage return and space (not the separators \<^verbatim>\<open>0x1C\<close> to \<^verbatim>\<open>0x1F\<close>, which \<^verbatim>\<open>str.isspace\<close>
  accepts). Characters are bytes: the digits and white space outside ASCII that Python
  would also accept are not modelled.
\<close>

definition isspace :: "char \<Rightarrow> bool" where
  "isspace c = (c \<in> set [CHR 0x09, CHR 0x0A, CHR 0x0B, CHR 0x0C, CHR 0x0D, CHR '' ''])"

definition strip :: "string \<Rightarrow> string" where
  "strip s = rev (dropWhile isspace (rev (dropWhile isspace s)))"

definition isdigit :: "char \<Rightarrow> bool" where
  "isdigit c = (c \<in> set ''0123456789'')"

definition digit_value :: "char \<Rightarrow> nat" where
  "digit_value c = of_char c - of_char CHR ''0''"

fun digits :: "nat \<Rightarrow> string \<Rightarrow> nat option" where
  "digits acc [] = Some acc"
| "digits acc [c] = (if isdigit c then Some (10 * acc + digit_value c) else None)"
| "digits acc (c # d # cs) =
     (if isdigit c then digits (10 * acc + digit_value c) (if d = CHR ''_'' then cs else d # cs)
      else None)"

definition py_int :: "string \<Rightarrow> nat option" where
  "py_int s =
     (let t = strip s;
          u = (case t of c # cs \<Rightarrow> if c = CHR ''+'' then cs else t | [] \<Rightarrow> t)
      in case u of [] \<Rightarrow> None
         | c # cs \<Rightarrow> if isdigit c \<and> isdigit (last u) then digits 0 u else None)"

text \<open>\<^verbatim>\<open>s.split(sep)\<close> for a separator of one character.\<close>

fun split :: "char \<Rightarrow> string \<Rightarrow> string list" where
  "split sep [] = [[]]"
| "split sep (c # cs) =
     (if c = sep then [] # split sep cs
      else (case split sep cs of p # ps \<Rightarrow> (c # p) # ps | [] \<Rightarrow> [[c]]))"

text \<open>
  \<^verbatim>\<open>PurePath.suffix\<close>: with \<^verbatim>\<open>i = name.rfind('.')\<close>, the suffix is \<^verbatim>\<open>name[i:]\<close> if
  \<^verbatim>\<open>0 < i < len(name) - 1\<close> and the empty string otherwise.
\<close>

definition suffix :: "string \<Rightarrow> string" where
  "suffix n =
     (if CHR ''.'' \<notin> set n then []
      else let ext = rev (takeWhile (\<lambda>c. c \<noteq> CHR ''.'') (rev n));
               i = length n - length ext - 1
           in if 0 < i \<and> i < length n - 1 then CHR ''.'' # ext else [])"

text \<open>
  The constructor \<^verbatim>\<open>datetime(year=..., month=..., day=...)\<close> raises \<^verbatim>\<open>ValueError\<close> unless
  \<^verbatim>\<open>1 <= year <= 9999\<close>, \<^verbatim>\<open>1 <= month <= 12\<close> and the day exists in that month.
\<close>

definition is_leap :: "nat \<Rightarrow> bool" where
  "is_leap y = (y mod 4 = 0 \<and> (y mod 100 \<noteq> 0 \<or> y mod 400 = 0))"

definition days_in_month :: "nat \<Rightarrow> nat \<Rightarrow> nat" where
  "days_in_month y m =
     (if m = 2 then (if is_leap y then 29 else 28)
      else if m \<in> {4, 6, 9, 11} then 30 else 31)"

definition mk_datetime :: "nat \<Rightarrow> nat \<Rightarrow> nat \<Rightarrow> error + datetime" where
  "mk_datetime y m d =
     (if \<not> (1 \<le> y \<and> y \<le> 9999) then Inl ValueError
      else if \<not> (1 \<le> m \<and> m \<le> 12) then Inl ValueError
      else if \<not> (1 \<le> d \<and> d \<le> days_in_month y m) then Inl ValueError
      else Inr \<lparr>year = y, month = m, day = d\<rparr>)"

text \<open>
  \<^verbatim>\<open>datetime(year=int(_date[0]), month=int(_date[1]), day=int(_date[2]))\<close> on a list of
  three strings.
\<close>

definition parse_date :: "string list \<Rightarrow> error + datetime" where
  "parse_date parts =
     (case py_int (parts ! 0) of None \<Rightarrow> Inl ValueError
      | Some y \<Rightarrow> (case py_int (parts ! 1) of None \<Rightarrow> Inl ValueError
        | Some m \<Rightarrow> (case py_int (parts ! 2) of None \<Rightarrow> Inl ValueError
          | Some d \<Rightarrow> mk_datetime y m d)))"

text \<open>\<^verbatim>\<open>name[11:-4]\<close>, the name remainder.\<close>

definition remainder :: "string \<Rightarrow> string" where
  "remainder n = drop 11 (take (length n - 4) n)"

text \<open>
  \<^verbatim>\<open>
  def __find_files(self):
      target = self.__arcname[11:-4]
      for file in self.__save.iterdir():
          if file.is_dir() or file.suffix != '.zip':
              continue
          _date = file.name[:10].split('-')
          if len(_date) != 3:
              continue
          date = datetime(year=int(_date[0]), month=int(_date[1]), day=int(_date[2]))
          name = file.name[11:-4]
          if name == target:
              yield file, date
  \<close>
  The second argument is the listing of the destination directory, in the order of
  \<^verbatim>\<open>iterdir()\<close>: the name of each entry and whether it is a directory. The caller drains
  the generator before it does anything else, so the result is the whole list or the
  exception that stopped the scan.
\<close>

fun find_files :: "session \<Rightarrow> (string \<times> bool) list \<Rightarrow> error + (string \<times> datetime) list" where
  "find_files s [] = Inr []"
| "find_files s ((file, isdir) # rest) =
     (if isdir \<or> suffix file \<noteq> ''.zip'' then find_files s rest
      else
        let parts = split CHR ''-'' (take 10 file) in
        if length parts \<noteq> 3 then find_files s rest
        else (case parse_date parts of
                Inl e \<Rightarrow> Inl e
              | Inr date \<Rightarrow>
                  if remainder file = remainder (arcname s)
                  then (case find_files s rest of
                          Inl e \<Rightarrow> Inl e | Inr found \<Rightarrow> Inr ((file, date) # found))
                  else find_files s rest))"

text \<open>
  \<^verbatim>\<open>
  def __auto_clean(self):
      if self.__dateless:
          return
      files = []
      for path, date in self.__find_files():
          if date.year < self.__today.year or date.month < self.__today.month:
              files.append((path, date))
      if len(files) < 2:
          return
      files.sort(key=lambda x : x[1], reverse=True)
      res = files[0][1] # latest date
      for path, date in files[1:]:
          if date.month == res.month and date.year == res.year:
              path.unlink()
          res = date
  \<close>
  \<open>is_past\<close> is the test of the first loop and \<open>unlink_loop\<close> the second loop; dates
  compare by year, then month, then day; \<^verbatim>\<open>sort\<close> with \<^verbatim>\<open>reverse=True\<close> is stable: it
  leaves entries of one date in their order. The result of \<open>auto_clean\<close> is the list of
  the names it unlinks, in order, and \<open>unlink_all\<close> is what that does to the listing.
\<close>

definition is_past :: "datetime \<Rightarrow> datetime \<Rightarrow> bool" where
  "is_past t date = (year date < year t \<or> month date < month t)"

definition date_key :: "datetime \<Rightarrow> nat \<times> nat \<times> nat" where
  "date_key d = (year d, month d, day d)"

definition sort_reverse :: "('a \<Rightarrow> 'k::linorder) \<Rightarrow> 'a list \<Rightarrow> 'a list" where
  "sort_reverse key xs = rev (sort_key key (rev xs))"

fun unlink_loop :: "datetime \<Rightarrow> (string \<times> datetime) list \<Rightarrow> string list" where
  "unlink_loop res [] = []"
| "unlink_loop res ((path, date) # rest) =
     (if month date = month res \<and> year date = year res then [path] else [])
     @ unlink_loop date rest"

definition auto_clean :: "session \<Rightarrow> (string \<times> bool) list \<Rightarrow> error + string list" where
  "auto_clean s listing =
     (if dateless s then Inr []
      else case find_files s listing of
        Inl e \<Rightarrow> Inl e
      | Inr found \<Rightarrow>
         (case today s of
            None \<Rightarrow> (if found = [] then Inr [] else Inl AttributeError)
          | Some t \<Rightarrow>
              let files = filter (\<lambda>(path, date). is_past t date) found in
              if length files < 2 then Inr []
              else
                let files' = sort_reverse (\<lambda>x. date_key (snd x)) files
                in Inr (unlink_loop (snd (hd files')) (tl files'))))"

definition unlink_all :: "string list \<Rightarrow> (string \<times> 'a) list \<Rightarrow> (string \<times> 'a) list" where
  "unlink_all paths listing = filter (\<lambda>(n, e). n \<notin> set paths) listing"

text \<open>
  A session of 10 December 2023 whose archive is \<^verbatim>\<open>2023-12-10-x.zip\<close>, and the destination
  directory of the retention example.
\<close>

definition session_x :: session where
  "session_x = \<lparr>target = ''/home/u/x'', save = ''/backup'', required_config = True,
     dateless = False, today = Some \<lparr>year = 2023, month = 12, day = 10\<rparr>,
     arcname = ''2023-12-10-x.zip'', allowlist = {}, denylist = DEFAULT_DENYLIST,
     cache = ''/backup/cache/x.json'', preview = False, depth_counter = 0,
     attrs = [(''auto_clean'', JBool True)]\<rparr>"

definition listing_x :: "(string \<times> bool) list" where
  "listing_x = [(''cache'', True), (''2023-11-02-x.zip'', False), (''2023-11-20-x.zip'', False),
     (''2023-12-05-x.zip'', False)]"

text \<open>
  Names for what one run of \<^verbatim>\<open>__auto_clean\<close> computes, used to state and prove its
  properties: \<open>scan1\<close> is the scan of a single entry; \<open>candidates\<close> is the list \<^verbatim>\<open>files\<close>
  after the first loop and \<open>ordered\<close> the same list after \<^verbatim>\<open>sort\<close>; \<open>ym\<close> is the
  (year, month) of an entry; \<open>gone_loop\<close> and \<open>kept_loop\<close> follow the second loop and collect
  the entries it unlinks and the entries it passes over; \<open>removed\<close> and \<open>survivors\<close> are
  these for the whole run (the newest candidate, \<^verbatim>\<open>files[0]\<close>, is never unlinked).
\<close>

definition scan1 :: "session \<Rightarrow> string \<times> bool \<Rightarrow> error + (string \<times> datetime) list" where
  "scan1 s e = find_files s [e]"

definition ym :: "string \<times> datetime \<Rightarrow> nat \<times> nat" where
  "ym x = (year (snd x), month (snd x))"

fun gone_loop :: "datetime \<Rightarrow> (string \<times> datetime) list \<Rightarrow> (string \<times> datetime) list" where
  "gone_loop res [] = []"
| "gone_loop res (x # rest) =
     (if month (snd x) = month res \<and> year (snd x) = year res then [x] else [])
     @ gone_loop (snd x) rest"

fun kept_loop :: "datetime \<Rightarrow> (string \<times> datetime) list \<Rightarrow> (string \<times> datetime) list" where
  "kept_loop res [] = []"
| "kept_loop res (x # rest) =
     (if month (snd x) = month res \<and> year (snd x) = year res then [] else [x])
     @ kept_loop (snd x) rest"

definition candidates :: "datetime \<Rightarrow> (string \<times> datetime) list \<Rightarrow> (string \<times> datetime) list" where
  "candidates t found = filter (\<lambda>(path, date). is_past t date) found"

definition ordered :: "datetime \<Rightarrow> (string \<times> datetime) list \<Rightarrow> (string \<times> datetime) list" where
  "ordered t found = sort_reverse (\<lambda>x. date_key (snd x)) (candidates t found)"

definition survivors :: "datetime \<Rightarrow> (string \<times> datetime) list \<Rightarrow> (string \<times> datetime) list" where
  "survivors t found = (case ordered t found of [] \<Rightarrow> [] | r # xs \<Rightarrow> r # kept_loop (snd r) xs)"

definition removed :: "datetime \<Rightarrow> (string \<times> datetime) list \<Rightarrow> (string \<times> datetime) list" where
  "removed t found = (case ordered t found of [] \<Rightarrow> [] | r # xs \<Rightarrow> gone_loop (snd r) xs)"

section \<open>ConfigCache: the constructor, \<^verbatim>\<open>info\<close> and \<^verbatim>\<open>__save_config\<close>\<close>

text \<open>
  \<^verbatim>\<open>path.name\<close> of an absolute path in the form \<^verbatim>\<open>resolve()\<close> gives it, \<^verbatim>\<open>path.stem\<close> of a
  name, \<^verbatim>\<open>s.endswith(p)\<close>, and \<^verbatim>\<open>strftime("%Y-%m-%d")\<close> of a date whose year has four digits
  (\<^verbatim>\<open>datetime.now()\<close> gives no other).
\<close>

definition basename :: "string \<Rightarrow> string" where
  "basename p = rev (takeWhile (\<lambda>c. c \<noteq> CHR ''/'') (rev p))"

definition stem :: "string \<Rightarrow> string" where
  "stem n = take (length n - length (suffix n)) n"

definition endswith :: "string \<Rightarrow> string \<Rightarrow> bool" where
  "endswith s p = startswith (rev s) (rev p)"

definition digit :: "nat \<Rightarrow> char" where
  "digit n = ''0123456789'' ! (n mod 10)"

definition strftime :: "datetime \<Rightarrow> string" where
  "strftime d =
     [digit (year d div 1000), digit (year d div 100), digit (year d div 10), digit (year d)]
     @ ''-'' @ [digit (month d div 10), digit (month d)]
     @ ''-'' @ [digit (day d div 10), digit (day d)]"

text \<open>
  The arguments of the constructor: \<open>arg_target\<close> and \<open>arg_save\<close> are the strings of
  \<^verbatim>\<open>Path(target).resolve()\<close> and \<^verbatim>\<open>Path(save).resolve()\<close>.
\<close>

record args =
  arg_target :: string
  arg_save :: string
  arg_arcname :: "string option"
  arg_auto_clean :: bool
  arg_required_config :: bool
  arg_dateless :: bool
  arg_preview :: bool

text \<open>
  What a file of the cache directory holds: the JSON value that \<^verbatim>\<open>json.load\<close> reads from
  it, with the keys of every object pairwise different, or text that \<^verbatim>\<open>json.load\<close> rejects.
\<close>

datatype filetext = Json json | NotJson

text \<open>
  \<^verbatim>\<open>
  def include(self, pattern):
      if isinstance(pattern, (list, set)):
          self.__allowlist.update(pattern)
      else:
          self.__allowlist.add(pattern)
      return self
  \<close>
  and \<^verbatim>\<open>exclude\<close> likewise on \<^verbatim>\<open>self.__denylist\<close>. \<open>added pattern\<close> is the list of the values
  that the call puts into the set, for a \<open>pattern\<close> that comes from a config record;
  a list and a dictionary cannot be hashed, so they cannot be put into a set.
\<close>

fun hashable :: "json \<Rightarrow> bool" where
  "hashable (JList xs) = False"
| "hashable (JObj kvs) = False"
| "hashable v = True"

definition added :: "json \<Rightarrow> error + json list" where
  "added pattern =
     (case pattern of
        JList xs \<Rightarrow> if list_all hashable xs then Inr xs else Inl TypeError
      | JObj kvs \<Rightarrow> Inl TypeError
      | _ \<Rightarrow> Inr [pattern])"

fun is_str :: "json \<Rightarrow> bool" where
  "is_str (JStr s) = True"
| "is_str v = False"

fun str :: "json \<Rightarrow> string" where
  "str (JStr s) = s"
| "str v = []"

text \<open>
  The names that the methods of the class read through \<^verbatim>\<open>self\<close> and that an entry of the
  instance's \<^verbatim>\<open>__dict__\<close> would replace: the private attributes, whose values the typed
  fields of a \<open>session\<close> hold, and the methods. (A property, such as \<^verbatim>\<open>info\<close>, wins over an
  entry of \<^verbatim>\<open>__dict__\<close>.)
\<close>

definition class_attribute :: "string \<Rightarrow> bool" where
  "class_attribute k =
     (k \<in> set [''_BackupManager__target'', ''_BackupManager__save'', ''_BackupManager__arcname'',
         ''_BackupManager__required_config'', ''_BackupManager__dateless'',
         ''_BackupManager__today'', ''_BackupManager__denylist'', ''_BackupManager__allowlist'',
         ''_cache'', ''_BackupManager__preview'', ''_BackupManager__depth_counter'',
         ''_BackupManager__color_path'', ''_BackupManager__namelist'',
         ''_BackupManager__find_files'', ''_BackupManager__auto_clean'',
         ''_BackupManager__save_config'', ''exclude'', ''include'', ''isValid'', ''compress''])"

text \<open>
  What the constructor makes: it raises, or it returns an instance. An instance whose
  pattern sets hold a value that is not a string (\<^verbatim>\<open>"allowlist": [5]\<close>) or whose \<^verbatim>\<open>__dict__\<close>
  got an entry under the name of a private attribute or of a method is no \<open>session\<close>: the
  record has no field for it, and \<open>Unrepresented\<close> says so.
\<close>

datatype constructed = Raised error | Built session | Unrepresented

text \<open>
  \<^verbatim>\<open>
  self.__denylist = set()
  info = json.load(self._cache.open('r'))
  self.include(info['allowlist'])
  self.exclude(info['denylist'])
  for name in info:
      if name in ['allowlist', 'denylist']:
          continue
      self.__dict__[name] = info[name]
  \<close>
  Subscripting a value that is not an object with a string raises \<^verbatim>\<open>TypeError\<close>, a missing
  key raises \<^verbatim>\<open>KeyError\<close>. An assignment to \<^verbatim>\<open>__dict__\<close> replaces the value of a name that is
  there and appends a new name, as \<open>AList.update\<close> does.
\<close>

definition load :: "json \<Rightarrow> session \<Rightarrow> constructed" where
  "load info s =
     (case info of
        JObj kvs \<Rightarrow>
          (case map_of kvs ''allowlist'' of
             None \<Rightarrow> Raised KeyError
           | Some pattern \<Rightarrow>
              (case added pattern of
                 Inl e \<Rightarrow> Raised e
               | Inr allowed \<Rightarrow>
                  (case map_of kvs ''denylist'' of
                     None \<Rightarrow> Raised KeyError
                   | Some pattern' \<Rightarrow>
                      (case added pattern' of
                         Inl e \<Rightarrow> Raised e
                       | Inr denied \<Rightarrow>
                          let rest = filter (\<lambda>(name, value). name \<notin> {''allowlist'', ''denylist''}) kvs
                          in if list_all is_str (allowed @ denied)
                                \<and> list_all (\<lambda>(name, value). \<not> class_attribute name) rest
                             then Built (s\<lparr>allowlist := allowlist s \<union> set (map str allowed),
                                          denylist := set (map str denied),
                                          attrs := fold (\<lambda>(name, value). AList.update name value)
                                                     rest (attrs s)\<rparr>)
                             else Unrepresented))))
      | _ \<Rightarrow> Raised TypeError)"

text \<open>
  \<^verbatim>\<open>__init__\<close>. \<open>target_is_file\<close> is \<^verbatim>\<open>self.__target.is_file()\<close>, \<open>now\<close> is \<^verbatim>\<open>datetime.now()\<close> and
  \<open>stored\<close> is what the file \<^verbatim>\<open>self._cache\<close> holds, \<open>None\<close> if it does not exist; the file
  is looked for only when \<^verbatim>\<open>required_config\<close> is set
  (\<^verbatim>\<open>if required_config and self._cache.exists():\<close>). The two
  directories that the constructor creates if they are missing (the destination and its
  \<^verbatim>\<open>cache\<close>) are there in every state of the file system that this theory describes.
\<close>

definition init :: "args \<Rightarrow> bool \<Rightarrow> datetime \<Rightarrow> filetext option \<Rightarrow> constructed" where
  "init a target_is_file now stored =
     (let nm = basename (arg_target a);
          arcname' = (case arg_arcname a of
                        None \<Rightarrow> if target_is_file then stem nm else nm
                      | Some n \<Rightarrow> if endswith n ''.zip'' then take (length n - 4) n else n);
          s = \<lparr>target = arg_target a, save = arg_save a,
               required_config = arg_required_config a, dateless = arg_dateless a,
               today = (if arg_dateless a then None else Some now),
               arcname = (if arg_dateless a then arcname' @ ''.zip''
                          else strftime now @ ''-'' @ arcname' @ ''.zip''),
               allowlist = {}, denylist = {},
               cache = joinpath (arg_save a) (''cache/'' @ arcname' @ ''.json''),
               preview = arg_preview a, depth_counter = 0,
               attrs = [(''auto_clean'', JBool (arg_auto_clean a))]\<rparr>
      in case (if arg_required_config a then stored else None) of
           Some NotJson \<Rightarrow> Raised JSONDecodeError
         | Some (Json info) \<Rightarrow> load info s
         | None \<Rightarrow> Built (s\<lparr>denylist := DEFAULT_DENYLIST\<rparr>))"

text \<open>
  \<^verbatim>\<open>
  @property
  def info(self):
      res = {
          'allowlist' : sorted(self.__allowlist),
          'denylist'  : sorted(self.__denylist)
      }
      for key, value in self.__dict__.items():
          if key.startswith('_'):
              continue
          if key in ['allowlist', 'denylist']:
              continue
          res[key] = value
      return res
  \<close>
\<close>

definition info :: "session \<Rightarrow> json" where
  "info s =
     JObj ([(''allowlist'', JList (map JStr (sorted_list_of_set (allowlist s)))),
            (''denylist'', JList (map JStr (sorted_list_of_set (denylist s))))]
           @ filter (\<lambda>(key, value). \<not> startswith key ''_'' \<and> key \<notin> {''allowlist'', ''denylist''})
               (attrs s))"

section \<open>ArchiveWriter: \<^verbatim>\<open>compress\<close>\<close>

text \<open>
  The destination directory: its immediate entries in the order of \<^verbatim>\<open>iterdir()\<close>, each a
  directory or a regular file, a regular file with the archive members written to it (name
  and size; none for an empty file); the files of its directory \<^verbatim>\<open>cache\<close>, by path; and the
  global \<^verbatim>\<open>NAMEDTEMPORARYFILE_NAME\<close> of the module.
\<close>

datatype entry = Folder | Regular "(string \<times> nat) list"

record world =
  entries :: "(string \<times> entry) list"
  records :: "(string \<times> filetext) list"
  NAMEDTEMPORARYFILE_NAME :: "string option"

text \<open>What \<^verbatim>\<open>compress\<close> prints, line by line, without the colours and the percentages.\<close>

datatype event =
    Constructing string
  | ConfigConstructed string
  | Listed string "nat option"
  | Stored string "(nat \<times> nat) option"
  | TotalDeflate nat nat
  | MaxDepth nat
  | Triggered
  | Deleted string
  | Done

datatype returned = ReturnsNone | ReturnsSelf

record outcome =
  after :: session
  world_after :: world
  printed :: "event list"
  result :: "error + returned"

text \<open>
  \<^verbatim>\<open>
  def __save_config(self):
      with self._cache.open('w') as f:
          json.dump(self.info, f, indent=4)
  \<close>
\<close>

definition save_config :: "session \<Rightarrow> world \<Rightarrow> world" where
  "save_config s w = w\<lparr>records := AList.update (cache s) (Json (info s)) (records w)\<rparr>"

text \<open>
  \<^verbatim>\<open>tempfile.NamedTemporaryFile(prefix=..., dir=..., delete=False)\<close> creates an empty file
  under the first of the names it draws that no entry of the directory bears, and gives up
  with \<^verbatim>\<open>FileExistsError\<close> when it has drawn \<^verbatim>\<open>TMP_MAX\<close> names in vain. \<open>rnd\<close> are the random parts
  of the names that it draws.
\<close>

definition NamedTemporaryFile :: "string \<Rightarrow> string list \<Rightarrow> string list \<Rightarrow> error + string" where
  "NamedTemporaryFile prefix rnd names =
     (case find (\<lambda>n. n \<notin> set names) (map (\<lambda>r. prefix @ r) rnd) of
        None \<Rightarrow> Inl OSError
      | Some n \<Rightarrow> Inr n)"

text \<open>
  What the file system holds at a path that the enumerator yielded (a directory with its
  separator at the end).
\<close>

definition stat :: "string \<Rightarrow> node \<Rightarrow> string \<Rightarrow> node option" where
  "stat root t filename =
     map_of (map (\<lambda>(p, nd). (evaluated p (is_dir nd), nd)) (subnodes root t)) filename"

text \<open>
  \<^verbatim>\<open>__color_path\<close> returns the path in colours; what it does to the session is
  \<^verbatim>\<open>
  is_dir = path[-1] == '/'
  path = path.split('/')
  if is_dir:
      path = path[:-1]
  ...
  depth = len(res)
  if depth > self.__depth_counter:
      self.__depth_counter = depth
  \<close>
  where \<^verbatim>\<open>res\<close> has one element for each element of \<^verbatim>\<open>path\<close>.
\<close>

definition color_path :: "string \<Rightarrow> session \<Rightarrow> session" where
  "color_path path s =
     (let is_dir = (last path = CHR ''/'');
          parts = split CHR ''/'' path;
          parts' = (if is_dir then butlast parts else parts);
          depth = length parts'
      in if depth > depth_counter s then s\<lparr>depth_counter := depth\<rparr> else s)"

text \<open>
  The loop of the preview:
  \<^verbatim>\<open>
  for filename, arcname in self.__namelist(self.__target):
      file_size = os.path.getsize(filename) if os.path.isfile(filename) else None
      print(self.__color_path(arcname), f'({file_size})' if file_size else '', ...)
  \<close>
\<close>

definition shown_size :: "string \<Rightarrow> node \<Rightarrow> string \<Rightarrow> nat option" where
  "shown_size root t filename =
     (let file_size = (case stat root t filename of Some (File n sz) \<Rightarrow> Some sz | _ \<Rightarrow> None)
      in case file_size of Some sz \<Rightarrow> if sz \<noteq> 0 then Some sz else None | None \<Rightarrow> None)"

fun preview_loop :: "string \<Rightarrow> node \<Rightarrow> (string \<times> string) list \<Rightarrow> session
    \<Rightarrow> session \<times> event list" where
  "preview_loop root t [] s = (s, [])"
| "preview_loop root t ((filename, arc) # rest) s =
     (let (s', shown) = preview_loop root t rest (color_path arc s)
      in (s', Listed arc (shown_size root t filename) # shown))"

text \<open>
  The loop that writes the archive:
  \<^verbatim>\<open>
  for filename, arcname in self.__namelist(self.__target):
      file_size = os.path.getsize(filename)
      total_file_size += file_size
      if os.path.isfile(filename):
          print(self.__color_path(arcname), f'({file_size} -> ', ...)
      else:
          print(self.__color_path(arcname), file=sys.stderr)
      archive.write(filename=filename, arcname=arcname)
      if os.path.isfile(filename):
          file_info = archive.getinfo(arcname)
          if file_size > 0:
              compress_size = file_info.compress_size
              total_compress_size += compress_size
              print('%d deflate %.2f%%)'%(...), file=sys.stderr)
          else:
              print('0 deflate 0%)', file=sys.stderr)
  \<close>
  \<open>deflate\<close> gives the compressed size of the file at a path. The loop stops at the first
  path that the file system no longer holds.
\<close>

record progress =
  session_now :: session
  members :: "(string \<times> nat) list"
  lines :: "event list"
  total_file_size :: nat
  total_compress_size :: nat

fun archive_loop :: "string \<Rightarrow> node \<Rightarrow> (string \<Rightarrow> nat) \<Rightarrow> (string \<times> string) list \<Rightarrow> progress
    \<Rightarrow> progress \<times> error option" where
  "archive_loop root t deflate [] p = (p, None)"
| "archive_loop root t deflate ((filename, arc) # rest) p =
     (case stat root t filename of
        Some (File n file_size) \<Rightarrow>
          archive_loop root t deflate rest
            \<lparr>session_now = color_path arc (session_now p),
             members = members p @ [(arc, file_size)],
             lines = lines p @ [Stored arc
                       (Some (file_size, if file_size > 0 then deflate filename else 0))],
             total_file_size = total_file_size p + file_size,
             total_compress_size = total_compress_size p
               + (if file_size > 0 then deflate filename else 0)\<rparr>
      | Some (Dir n file_size paths) \<Rightarrow>
          archive_loop root t deflate rest
            \<lparr>session_now = color_path arc (session_now p),
             members = members p @ [(arc, 0)],
             lines = lines p @ [Stored arc None],
             total_file_size = total_file_size p + file_size,
             total_compress_size = total_compress_size p\<rparr>
      | _ \<Rightarrow> (p, Some OSError))"

text \<open>The truth value of a JSON value, as \<^verbatim>\<open>if self.auto_clean:\<close> takes it.\<close>

definition truthy :: "json \<Rightarrow> bool" where
  "truthy v =
     (case v of JNull \<Rightarrow> False | JBool b \<Rightarrow> b | JInt i \<Rightarrow> i \<noteq> 0 | JStr s \<Rightarrow> s \<noteq> []
      | JList xs \<Rightarrow> xs \<noteq> [] | JObj kvs \<Rightarrow> kvs \<noteq> [])"

definition iterdir :: "(string \<times> entry) list \<Rightarrow> (string \<times> bool) list" where
  "iterdir es = map (\<lambda>(n, e). (n, e = Folder)) es"

text \<open>
  \<^verbatim>\<open>shutil.move(NAMEDTEMPORARYFILE_NAME, f'{self.__save}/{self.__arcname}')\<close>: the temporary
  file takes the archive's name and replaces the file of that name, or moves into the
  directory of that name (what a directory of the destination holds is not described).
\<close>

definition move :: "string \<Rightarrow> string \<Rightarrow> (string \<times> entry) list
    \<Rightarrow> error + (string \<times> entry) list" where
  "move src dst es =
     (case map_of es src of
        None \<Rightarrow> Inl OSError
      | Some e \<Rightarrow>
         (case map_of es dst of
            Some Folder \<Rightarrow> Inr (AList.delete src es)
          | _ \<Rightarrow> Inr (AList.update dst e (AList.delete src es))))"

text \<open>
  \<^verbatim>\<open>compress\<close>, for a session \<open>s\<close>, the destination \<open>w\<close> and the tree \<open>t\<close> at the target. The
  steps in the order of the source: the header line; the config gate and the write-through
  of the config record; the temporary file; the preview; the archive; the move; the
  statistics; the retention pass.
\<close>

definition compress :: "session \<Rightarrow> world \<Rightarrow> node \<Rightarrow> string list \<Rightarrow> (string \<Rightarrow> nat) \<Rightarrow> outcome" where
  "compress s w t rnd deflate =
     (let header = Constructing (save s @ ''/'' @ arcname s) in
      if required_config s \<and> map_of (records w) (cache s) = None
      then \<lparr>after = s, world_after = save_config s w,
            printed = [header, ConfigConstructed (cache s)], result = Inr ReturnsNone\<rparr>
      else
        let w1 = (if required_config s then save_config s w else w) in
        case NamedTemporaryFile (basename (target s) @ ''_'') rnd (map fst (entries w1)) of
          Inl e \<Rightarrow> \<lparr>after = s, world_after = w1, printed = [header], result = Inl e\<rparr>
        | Inr temp \<Rightarrow>
           let w2 = w1\<lparr>entries := entries w1 @ [(temp, Regular [])],
                       NAMEDTEMPORARYFILE_NAME := Some temp\<rparr>
           in case namelist (allowlist s) (denylist s) (target s) None t of
                Inl e \<Rightarrow> \<lparr>after = s, world_after = w2, printed = [header], result = Inl e\<rparr>
              | Inr names \<Rightarrow>
                 if preview s
                 then let (s', lines) = preview_loop (target s) t names s
                      in \<lparr>after = s', world_after = w2, printed = header # lines,
                          result = Inr ReturnsNone\<rparr>
                 else
                   let (p, failed) = archive_loop (target s) t deflate names
                          \<lparr>session_now = s, members = [], lines = [],
                           total_file_size = 0, total_compress_size = 0\<rparr>;
                       w3 = w2\<lparr>entries := AList.update temp (Regular (members p)) (entries w2)\<rparr>
                   in case failed of
                        Some e \<Rightarrow> \<lparr>after = session_now p, world_after = w3,
                                   printed = header # lines p, result = Inl e\<rparr>
                      | None \<Rightarrow>
                         (case move temp (arcname s) (entries w3) of
                            Inl e \<Rightarrow> \<lparr>after = session_now p, world_after = w3,
                                      printed = header # lines p, result = Inl e\<rparr>
                          | Inr moved \<Rightarrow>
                             let w4 = w3\<lparr>entries := moved, NAMEDTEMPORARYFILE_NAME := None\<rparr>;
                                 s' = session_now p;
                                 stats = (if total_file_size p > 0
                                          then [TotalDeflate (total_file_size p)
                                                  (total_compress_size p),
                                                MaxDepth (depth_counter s')]
                                          else []);
                                 out = header # lines p @ stats
                             in case map_of (attrs s') ''auto_clean'' of
                                  None \<Rightarrow> \<lparr>after = s', world_after = w4, printed = out,
                                            result = Inl AttributeError\<rparr>
                                | Some flag \<Rightarrow>
                                   if \<not> truthy flag \<or> dateless s'
                                   then \<lparr>after = s', world_after = w4, printed = out,
                                         result = Inr ReturnsSelf\<rparr>
                                   else
                                     (case auto_clean s' (iterdir (entries w4)) of
                                        Inl e \<Rightarrow> \<lparr>after = s', world_after = w4,
                                                  printed = out @ [Triggered], result = Inl e\<rparr>
                                      | Inr deleted \<Rightarrow>
                                         \<lparr>after = s',
                                          world_after =
                                            w4\<lparr>entries := unlink_all deleted (entries w4)\<rparr>,
                                          printed = out @ [Triggered] @ map Deleted deleted
                                            @ [Done],
                                          result = Inr ReturnsSelf\<rparr>)))"

section \<open>Sessions and destinations of the examples\<close>

text \<open>
  What the constructor guarantees of the entries of \<^verbatim>\<open>__dict__\<close> that \<open>attrs\<close> holds: their
  names are pairwise different, as the keys of a dictionary are, and none is the name of an
  attribute of the class. \<open>public\<close> are the entries that \<^verbatim>\<open>info\<close> copies into the record.
\<close>

definition proper :: "session \<Rightarrow> bool" where
  "proper s = (distinct (map fst (attrs s))
     \<and> list_all (\<lambda>(key, value). \<not> class_attribute key) (attrs s))"

definition public :: "session \<Rightarrow> (string \<times> json) list" where
  "public s = filter (\<lambda>(key, value). \<not> startswith key ''_'' \<and> key \<notin> {''allowlist'', ''denylist''})
     (attrs s)"

text \<open>
  A first run on the project tree, on 10 December 2023, in preview: the arguments, the
  session that the constructor makes of them, a destination directory that holds nothing
  but its \<^verbatim>\<open>cache\<close>, and the record that this session writes.
\<close>

definition args_proj :: args where
  "args_proj = \<lparr>arg_target = ''/home/u/proj'', arg_save = ''/backup'', arg_arcname = None,
     arg_auto_clean = True, arg_required_config = True, arg_dateless = False,
     arg_preview = True\<rparr>"

definition session_proj :: session where
  "session_proj = \<lparr>target = ''/home/u/proj'', save = ''/backup'', required_config = True,
     dateless = False, today = Some \<lparr>year = 2023, month = 12, day = 10\<rparr>,
     arcname = ''2023-12-10-proj.zip'', allowlist = {}, denylist = DEFAULT_DENYLIST,
     cache = ''/backup/cache/proj.json'', preview = True, depth_counter = 0,
     attrs = [(''auto_clean'', JBool True)]\<rparr>"

definition world_new :: world where
  "world_new = \<lparr>entries = [(''cache'', Folder)], records = [],
     NAMEDTEMPORARYFILE_NAME = None\<rparr>"

definition record_proj :: json where
  "record_proj = JObj [(''allowlist'', JList []),
     (''denylist'', JList [JStr ''.vscode'', JStr ''.zip'', JStr ''__pycache__'']),
     (''auto_clean'', JBool True)]"

text \<open>
  The same target archived without a config (\<^verbatim>\<open>required_config=False\<close>, the \<^verbatim>\<open>--force\<close> of
  the command line), with retention asked for: the arguments, the session that the
  constructor makes of them, a small tree at the target, and a destination directory whose
  cache holds a record with other patterns and \<^verbatim>\<open>auto_clean\<close> switched off.
\<close>

definition project_small :: node where
  "project_small = Dir ''proj'' 4096 [File ''a.txt'' 5]"

definition args_force :: args where
  "args_force = \<lparr>arg_target = ''/home/u/proj'', arg_save = ''/backup'', arg_arcname = None,
     arg_auto_clean = True, arg_required_config = False, arg_dateless = False,
     arg_preview = False\<rparr>"

definition session_force :: session where
  "session_force = \<lparr>target = ''/home/u/proj'', save = ''/backup'', required_config = False,
     dateless = False, today = Some \<lparr>year = 2023, month = 12, day = 10\<rparr>,
     arcname = ''2023-12-10-proj.zip'', allowlist = {}, denylist = DEFAULT_DENYLIST,
     cache = ''/backup/cache/proj.json'', preview = False, depth_counter = 0,
     attrs = [(''auto_clean'', JBool True)]\<rparr>"

definition record_off :: json where
  "record_off = JObj [(''allowlist'', JList [JStr ''keep'']),
     (''denylist'', JList [JStr ''node_modules'']),
     (''auto_clean'', JBool False)]"

definition world_off :: world where
  "world_off = \<lparr>entries = [(''cache'', Folder)],
     records = [(''/backup/cache/proj.json'', Json record_off)],
     NAMEDTEMPORARYFILE_NAME = None\<rparr>"





section \<open>Substring containment\<close>

lemma startswith_iff: "startswith s p \<longleftrightarrow> (\<exists>v. s = p @ v)"
  by (induction s p rule: startswith.induct) auto

lemma contains_iff: "contains p s \<longleftrightarrow> (\<exists>u v. s = u @ p @ v)"
proof (induction s)
  case Nil
  then show ?case by auto
next
  case (Cons c cs)
  show ?case
  proof
    assume "contains p (c # cs)"
    then consider "startswith (c # cs) p" | "contains p cs" by auto
    then show "\<exists>u v. c # cs = u @ p @ v"
    proof cases
      case 1
      then obtain v where "c # cs = p @ v" by (auto simp: startswith_iff)
      then have "c # cs = [] @ p @ v" by simp
      then show ?thesis by blast
    next
      case 2
      then obtain u v where "cs = u @ p @ v" using Cons.IH by auto
      then have "c # cs = (c # u) @ p @ v" by simp
      then show ?thesis by blast
    qed
  next
    assume "\<exists>u v. c # cs = u @ p @ v"
    then obtain u v where uv: "c # cs = u @ p @ v" by blast
    show "contains p (c # cs)"
    proof (cases u)
      case Nil
      with uv have "startswith (c # cs) p" by (auto simp: startswith_iff)
      then show ?thesis by simp
    next
      case (Cons a u')
      with uv have "cs = u' @ p @ v" by simp
      then have "contains p cs" using Cons.IH by blast
      then show ?thesis by simp
    qed
  qed
qed

section \<open>Claims about the filter\<close>

text \<open>
  C7: for every path and every pair of allow/deny pattern sets, \<open>isValid\<close> returns true
  whenever the evaluated path string (the path with a trailing separator appended for a
  directory) contains some allow pattern as a substring, whatever the deny set holds; and
  when no allow pattern is contained in it, \<open>isValid\<close> returns true exactly when no deny
  pattern is contained in it. Containment is stated as \<open>s = u @ p @ v\<close>.
\<close>

theorem isValid_allow_overrides_deny:
  "((\<exists>p \<in> allow. \<exists>u v. evaluated path isdir = u @ p @ v) \<longrightarrow>
      isValid allow deny path isdir)
   \<and> (\<not> (\<exists>p \<in> allow. \<exists>u v. evaluated path isdir = u @ p @ v) \<longrightarrow>
      (isValid allow deny path isdir
        \<longleftrightarrow> \<not> (\<exists>p \<in> deny. \<exists>u v. evaluated path isdir = u @ p @ v)))"
  by (simp add: isValid_def evaluated_def Let_def contains_iff)

theorem isValid_allow_overrides_deny_witness:
  "isValid {''keep''} {''.zip'', ''keep''} ''/home/u/keep.zip'' False
   \<and> \<not> isValid {''keep''} {''.vscode/''} ''/home/u/.vscode'' True
   \<and> isValid {''keep''} {''.vscode/''} ''/home/u/.vscode'' False"
proof -
  have a: "\<exists>p \<in> {''keep''}. \<exists>u v. evaluated ''/home/u/keep.zip'' False = u @ p @ v"
  proof -
    have "evaluated ''/home/u/keep.zip'' False = ''/home/u/'' @ ''keep'' @ ''.zip''"
      by (simp add: evaluated_def)
    then show ?thesis by blast
  qed
  have "\<not> contains ''keep'' (evaluated ''/home/u/.vscode'' b)" for b
    by (simp add: evaluated_def)
  then have n: "\<not> (\<exists>p \<in> {''keep''}. \<exists>u v. evaluated ''/home/u/.vscode'' b = u @ p @ v)" for b
    unfolding contains_iff by blast
  have "contains ''.vscode/'' (evaluated ''/home/u/.vscode'' True)"
    by (simp add: evaluated_def)
  then have d: "\<exists>p \<in> {''.vscode/''}. \<exists>u v. evaluated ''/home/u/.vscode'' True = u @ p @ v"
    unfolding contains_iff by blast
  have "\<not> contains ''.vscode/'' (evaluated ''/home/u/.vscode'' False)"
    by (simp add: evaluated_def)
  then have e: "\<not> (\<exists>p \<in> {''.vscode/''}. \<exists>u v. evaluated ''/home/u/.vscode'' False = u @ p @ v)"
    unfolding contains_iff by blast
  from isValid_allow_overrides_deny [of "{''keep''}" "''/home/u/keep.zip''" False "{''.zip'', ''keep''}"] a
  have 1: "isValid {''keep''} {''.zip'', ''keep''} ''/home/u/keep.zip'' False" by blast
  from isValid_allow_overrides_deny [of "{''keep''}" "''/home/u/.vscode''" True "{''.vscode/''}"] n d
  have 2: "\<not> isValid {''keep''} {''.vscode/''} ''/home/u/.vscode'' True" by blast
  from isValid_allow_overrides_deny [of "{''keep''}" "''/home/u/.vscode''" False "{''.vscode/''}"] n e
  have 3: "isValid {''keep''} {''.vscode/''} ''/home/u/.vscode'' False" by blast
  from 1 2 3 show ?thesis by blast
qed

section \<open>The enumerator: order\<close>

lemma yield_from_Inr:
  "\<forall>r \<in> set rs. \<exists>ys. r = Inr ys \<Longrightarrow> yield_from rs = Inr (concat (map yields rs))"
  by (induction rs rule: yield_from.induct) (auto simp: yields_def)

lemma namelist_returns:
  "is_file nd \<or> is_dir nd \<Longrightarrow> \<exists>ys. namelist A D path parent nd = Inr ys"
proof (induction A D path parent nd rule: namelist.induct)
  case (3 A D path parent n sz paths)
  show ?case
  proof (cases "isValid A D path True")
    case False
    then show ?thesis by simp
  next
    case True
    let ?rs = "Inr [(path @ ''/'', arcpath parent n @ ''/'')]
              # map (\<lambda>file. namelist A D (joinpath path (name file)) (Some (arcpath parent n)) file) (sort_key name (filter is_file paths))
              @ map (\<lambda>folder. namelist A D (joinpath path (name folder)) (Some (arcpath parent n)) folder)
                  (sort_key name (filter is_dir paths))"
    have "\<forall>r \<in> set ?rs. \<exists>ys. r = Inr ys"
      using 3 True by auto
    from yield_from_Inr [OF this] show ?thesis using True by (simp add: Let_def)
  qed
qed auto

lemma concat_map_if:
  "concat (map (\<lambda>x. if P x then [g x] else []) xs) = map g (filter P xs)"
  by (induction xs) auto

lemma concat_map_filter_nil:
  "(\<And>x. x \<in> set xs \<Longrightarrow> \<not> P x \<Longrightarrow> h x = []) \<Longrightarrow>
   concat (map h xs) = concat (map h (filter P xs))"
  by (induction xs) auto

lemma namelist_file:
  "is_file f \<Longrightarrow> yields (namelist A D p (Some arc) f) =
     (if isValid A D p False then [(p, joinpath arc (name f))] else [])"
  by (cases f) (auto simp: yields_def arcpath_def)

lemma namelist_invalid:
  "\<not> isValid A D p (is_dir nd) \<Longrightarrow> namelist A D p parent nd = Inr []"
  by (cases nd) auto

lemma namelist_Dir_shape:
  assumes "isValid A D path True"
  shows "namelist A D path parent (Dir n sz paths) =
     Inr ((path @ ''/'', arcpath parent n @ ''/'')
          # map (\<lambda>f. (joinpath path (name f), joinpath (arcpath parent n) (name f)))
              (sort_key name [f \<leftarrow> paths. is_file f \<and> isValid A D (joinpath path (name f)) False])
          @ concat (map (\<lambda>d. yields (namelist A D (joinpath path (name d)) (Some (arcpath parent n)) d))
              (sort_key name [d \<leftarrow> paths. is_dir d \<and> isValid A D (joinpath path (name d)) True])))"
proof -
  let ?arc = "arcpath parent n"
  let ?files = "sort_key name (filter is_file paths)"
  let ?folders = "sort_key name (filter is_dir paths)"
  let ?f = "\<lambda>file. namelist A D (joinpath path (name file)) (Some ?arc) file"
  let ?rs = "Inr [(path @ ''/'', ?arc @ ''/'')] # map ?f ?files @ map ?f ?folders"
  have ok: "\<forall>r \<in> set ?rs. \<exists>ys. r = Inr ys"
    using namelist_returns by auto
  have 1: "namelist A D path parent (Dir n sz paths) = Inr (concat (map yields ?rs))"
    using assms yield_from_Inr [OF ok] by (simp add: Let_def)
  have "concat (map (\<lambda>x. yields (?f x)) ?files) =
      concat (map (\<lambda>f. if isValid A D (joinpath path (name f)) False
                  then [(joinpath path (name f), joinpath ?arc (name f))] else []) ?files)"
    by (rule arg_cong [where f = concat], rule map_cong [OF refl]) (simp add: namelist_file)
  also have "\<dots> = map (\<lambda>f. (joinpath path (name f), joinpath ?arc (name f)))
        (filter (\<lambda>f. isValid A D (joinpath path (name f)) False) ?files)"
    by (rule concat_map_if)
  also have "filter (\<lambda>f. isValid A D (joinpath path (name f)) False) ?files =
      sort_key name [f \<leftarrow> paths. is_file f \<and> isValid A D (joinpath path (name f)) False]"
    by (simp add: filter_sort conj_commute)
  finally have files: "concat (map (\<lambda>x. yields (?f x)) ?files) =
      map (\<lambda>f. (joinpath path (name f), joinpath ?arc (name f)))
        (sort_key name [f \<leftarrow> paths. is_file f \<and> isValid A D (joinpath path (name f)) False])" .
  have "concat (map (\<lambda>x. yields (?f x)) ?folders) =
      concat (map (\<lambda>x. yields (?f x))
        (filter (\<lambda>d. isValid A D (joinpath path (name d)) True) ?folders))"
  proof (rule concat_map_filter_nil)
    fix x assume "x \<in> set ?folders" and "\<not> isValid A D (joinpath path (name x)) True"
    then have "\<not> isValid A D (joinpath path (name x)) (is_dir x)" by auto
    from namelist_invalid [OF this] show "yields (?f x) = []" by (simp add: yields_def)
  qed
  also have "filter (\<lambda>d. isValid A D (joinpath path (name d)) True) ?folders =
      sort_key name [d \<leftarrow> paths. is_dir d \<and> isValid A D (joinpath path (name d)) True]"
    by (simp add: filter_sort conj_commute)
  finally have folders: "concat (map (\<lambda>x. yields (?f x)) ?folders) =
      concat (map (\<lambda>x. yields (?f x))
        (sort_key name [d \<leftarrow> paths. is_dir d \<and> isValid A D (joinpath path (name d)) True]))" .
  show ?thesis
    unfolding 1 using files folders by (simp add: yields_def o_def)
qed

lemma sort_key_perm:
  assumes "mset xs = mset ys" and "distinct (map f xs)"
  shows "sort_key f xs = sort_key f ys"
proof (rule properties_for_sort_key)
  show "mset (sort_key f ys) = mset xs" using assms by simp
  show "sorted (map f (sort_key f ys))" by simp
  fix k assume k: "k \<in> set (sort_key f ys)"
  have dy: "distinct (map f ys)"
    using assms by (metis mset_eq_imp_distinct_iff mset_map)
  have kx: "k \<in> set xs" using k assms by (metis mset_eq_setD set_sort)
  have "filter (\<lambda>x. f k = f x) zs = [k]" if "distinct (map f zs)" "k \<in> set zs" for zs
    using that
  proof (induction zs)
    case (Cons z zs)
    then show ?case by (cases "z = k") (auto simp: image_iff filter_empty_conv)
  qed simp
  then show "filter (\<lambda>x. f k = f x) (sort_key f ys) = filter (\<lambda>x. f k = f x) xs"
    using dy kx k assms by (simp add: distinct_map)
qed

lemma canon_simps [simp]:
  "name (canon t) = name t" "is_file (canon t) = is_file t" "is_dir (canon t) = is_dir t"
  by (cases t; simp)+

lemma insort_key_map:
  "(\<And>x. f (g x) = f x) \<Longrightarrow> insort_key f (g x) (map g ys) = map g (insort_key f x ys)"
  by (induction ys) auto

lemma sort_key_map:
  "(\<And>x. f (g x) = f x) \<Longrightarrow> sort_key f (map g xs) = map g (sort_key f xs)"
  by (induction xs) (auto simp: insort_key_map)

lemma canon_listing:
  "sort_key name (filter P (sort_key name (map canon paths))) =
   map canon (sort_key name (filter (\<lambda>c. P (canon c)) paths))"
proof -
  have "sort_key name (filter P (sort_key name (map canon paths))) =
      sort_key name (sort_key name (filter P (map canon paths)))"
    by (simp add: filter_sort)
  also have "\<dots> = sort_key name (filter P (map canon paths))"
    by (simp add: sort_key_id_if_sorted)
  also have "\<dots> = sort_key name (map canon (filter (\<lambda>c. P (canon c)) paths))"
    by (simp add: filter_map o_def)
  also have "\<dots> = map canon (sort_key name (filter (\<lambda>c. P (canon c)) paths))"
    by (rule sort_key_map) simp
  finally show ?thesis .
qed

lemma namelist_canon:
  "namelist A D path parent (canon t) = namelist A D path parent t"
proof (induction A D path parent t rule: namelist.induct)
  case (3 A D path parent n sz paths)
  show ?case
  proof (cases "isValid A D path True")
    case False
    then show ?thesis by simp
  next
    case True
    let ?arc = "arcpath parent n"
    let ?g = "\<lambda>c. namelist A D (joinpath path (name c)) (Some ?arc) c"
    have f: "map ?g (map canon (sort_key name (filter is_file paths))) =
        map ?g (sort_key name (filter is_file paths))"
      unfolding map_map o_def
      by (rule map_cong [OF refl]) (simp add: "3.IH"(1) [OF _ refl refl refl] True)
    have d: "map ?g (map canon (sort_key name (filter is_dir paths))) =
        map ?g (sort_key name (filter is_dir paths))"
      unfolding map_map o_def
      by (rule map_cong [OF refl]) (simp add: "3.IH"(2) [OF _ refl refl refl] True)
    have "namelist A D path parent (canon (Dir n sz paths)) =
        yield_from (Inr [(path @ ''/'', ?arc @ ''/'')]
          # map ?g (map canon (sort_key name (filter is_file paths)))
          @ map ?g (map canon (sort_key name (filter is_dir paths))))"
      using True by (simp add: Let_def canon_listing del: map_map)
    also have "\<dots> = namelist A D path parent (Dir n sz paths)"
      unfolding f d using True by (simp add: Let_def)
    finally show ?thesis .
  qed
qed simp_all

lemma canon_perm:
  assumes "mset paths' = mset paths" and "distinct (map name paths)"
  shows "canon (Dir n sz paths') = canon (Dir n sz paths)"
proof -
  have "mset (map canon paths') = mset (map canon paths)" using assms(1) by simp
  moreover have "distinct (map name (map canon paths'))"
    using assms by (metis (no_types, lifting) canon_simps(1) map_eq_conv map_map o_def mset_eq_imp_distinct_iff mset_map)
  ultimately show ?thesis by (simp add: sort_key_perm)
qed

text \<open>
  C5: for every directory tree, the enumerator yields a valid directory's own entry first,
  with the source path and the archive path both ending in a separator; then the valid
  plain files of that directory, sorted by name; then what the enumeration of each valid
  subdirectory yields, the subdirectories taken sorted by name. So the order does not
  depend on the order of the listings: two listings of one tree (equal after sorting
  every listing by name) give the same sequence of entries.
\<close>

theorem namelist_order:
  "(isValid A D path True \<longrightarrow>
     (\<exists>files folders.
        mset files = mset [f \<leftarrow> paths. is_file f \<and> isValid A D (joinpath path (name f)) False]
      \<and> sorted (map name files)
      \<and> mset folders = mset [d \<leftarrow> paths. is_dir d \<and> isValid A D (joinpath path (name d)) True]
      \<and> sorted (map name folders)
      \<and> namelist A D path parent (Dir n sz paths) =
          Inr ((path @ ''/'', arcpath parent n @ ''/'')
               # map (\<lambda>f. (joinpath path (name f), joinpath (arcpath parent n) (name f))) files
               @ concat (map (\<lambda>d. yields (namelist A D (joinpath path (name d))
                                      (Some (arcpath parent n)) d)) folders))))
   \<and> (canon t = canon t' \<longrightarrow> namelist A D path parent t = namelist A D path parent t')"
proof (intro conjI impI)
  assume v: "isValid A D path True"
  let ?files = "sort_key name [f \<leftarrow> paths. is_file f \<and> isValid A D (joinpath path (name f)) False]"
  let ?folders = "sort_key name [d \<leftarrow> paths. is_dir d \<and> isValid A D (joinpath path (name d)) True]"
  have "mset ?files = mset [f \<leftarrow> paths. is_file f \<and> isValid A D (joinpath path (name f)) False]"
    "sorted (map name ?files)"
    "mset ?folders = mset [d \<leftarrow> paths. is_dir d \<and> isValid A D (joinpath path (name d)) True]"
    "sorted (map name ?folders)"
    by simp_all
  with namelist_Dir_shape [OF v, of parent n sz paths] show "\<exists>files folders.
        mset files = mset [f \<leftarrow> paths. is_file f \<and> isValid A D (joinpath path (name f)) False]
      \<and> sorted (map name files)
      \<and> mset folders = mset [d \<leftarrow> paths. is_dir d \<and> isValid A D (joinpath path (name d)) True]
      \<and> sorted (map name folders)
      \<and> namelist A D path parent (Dir n sz paths) =
          Inr ((path @ ''/'', arcpath parent n @ ''/'')
               # map (\<lambda>f. (joinpath path (name f), joinpath (arcpath parent n) (name f))) files
               @ concat (map (\<lambda>d. yields (namelist A D (joinpath path (name d))
                                      (Some (arcpath parent n)) d)) folders))"
    by blast
next
  assume "canon t = canon t'"
  then show "namelist A D path parent t = namelist A D path parent t'"
    by (metis namelist_canon)
qed

theorem namelist_order_witness:
  "isValid {} DEFAULT_DENYLIST ''/home/u/proj'' True
   \<and> canon project_relisted = canon project
   \<and> namelist {} DEFAULT_DENYLIST ''/home/u/proj'' None project_relisted
       = namelist {} DEFAULT_DENYLIST ''/home/u/proj'' None project
   \<and> namelist {} DEFAULT_DENYLIST ''/home/u/proj'' None project =
       Inr [(''/home/u/proj/'', ''proj/''),
            (''/home/u/proj/README'', ''proj/README''),
            (''/home/u/proj/z.txt'', ''proj/z.txt''),
            (''/home/u/proj/src/'', ''proj/src/''),
            (''/home/u/proj/src/a.py'', ''proj/src/a.py''),
            (''/home/u/proj/src/b.py'', ''proj/src/b.py'')]"
proof -
  have v: "isValid {} DEFAULT_DENYLIST ''/home/u/proj'' True"
    by (simp add: isValid_def DEFAULT_DENYLIST_def)
  have c: "canon project_relisted = canon project"
    by (simp add: project_def project_relisted_def)
  have l: "namelist {} DEFAULT_DENYLIST ''/home/u/proj'' None project =
       Inr [(''/home/u/proj/'', ''proj/''),
            (''/home/u/proj/README'', ''proj/README''),
            (''/home/u/proj/z.txt'', ''proj/z.txt''),
            (''/home/u/proj/src/'', ''proj/src/''),
            (''/home/u/proj/src/a.py'', ''proj/src/a.py''),
            (''/home/u/proj/src/b.py'', ''proj/src/b.py'')]"
    by (simp add: project_def isValid_def DEFAULT_DENYLIST_def joinpath_def arcpath_def)
  from namelist_order [where t = project_relisted and t' = project and A = "{}"
      and D = DEFAULT_DENYLIST and path = "''/home/u/proj''" and parent = None] v c
  have "namelist {} DEFAULT_DENYLIST ''/home/u/proj'' None project_relisted
       = namelist {} DEFAULT_DENYLIST ''/home/u/proj'' None project"
    by blast
  with v c l show ?thesis by blast
qed

section \<open>The enumerator: pruning\<close>

lemma joinpath_abs:
  "startswith path ''/'' \<Longrightarrow> n \<noteq> [] \<Longrightarrow>
   joinpath path n = (if path = ''/'' then ''/'' else path @ ''/'') @ n
   \<and> startswith (joinpath path n) ''/'' \<and> joinpath path n \<noteq> ''/''"
  by (cases path) (auto simp: joinpath_def)

lemma subnodes_self: "(p, nd) \<in> set (subnodes p nd)"
  by (cases nd) auto

lemma subnodes_trans:
  "(p, d) \<in> set (subnodes path t) \<Longrightarrow> (q, x) \<in> set (subnodes p d) \<Longrightarrow>
   (q, x) \<in> set (subnodes path t)"
  by (induction path t rule: subnodes.induct) auto

lemma subnodes_below:
  "wf_tree d \<Longrightarrow> startswith p ''/'' \<Longrightarrow> p \<noteq> ''/'' \<Longrightarrow> (q, x) \<in> set (subnodes p d) \<Longrightarrow>
   \<exists>r. evaluated q (is_dir x) = p @ r \<and> (r = [] \<or> hd r = CHR ''/'')"
proof (induction p d arbitrary: q x rule: subnodes.induct)
  case (1 path n sz paths)
  from "1.prems"(4) consider "(q, x) = (path, Dir n sz paths)"
    | c where "c \<in> set paths" "(q, x) \<in> set (subnodes (joinpath path (name c)) c)"
    by auto
  then show ?case
  proof cases
    case 1
    then show ?thesis by (auto simp: evaluated_def)
  next
    case 2
    from "1.prems"(1) 2(1) have c: "name c \<noteq> []" "wf_tree c"
      by (auto simp: list_all_iff)
    from joinpath_abs [OF "1.prems"(2) c(1)] "1.prems"(3)
    have j: "joinpath path (name c) = path @ ''/'' @ name c"
      "startswith (joinpath path (name c)) ''/''" "joinpath path (name c) \<noteq> ''/''"
      by auto
    from "1.IH" [OF 2(1) c(2) j(2) j(3) 2(2)]
    obtain r where "evaluated q (is_dir x) = joinpath path (name c) @ r" by blast
    then have "evaluated q (is_dir x) = path @ (''/'' @ name c @ r)" using j(1) by simp
    then show ?thesis by (metis append_Cons list.sel(1))
  qed
qed (auto simp: evaluated_def)

lemma namelist_subset:
  "(s, a) \<in> set (yields (namelist A D p parent nd)) \<Longrightarrow>
   \<exists>(q, x) \<in> set (subnodes p nd). s = evaluated q (is_dir x)"
proof (induction A D p parent nd arbitrary: s a rule: namelist.induct)
  case (3 A D path parent n sz paths)
  show ?case
  proof (cases "isValid A D path True")
    case False
    with 3 show ?thesis by (simp add: yields_def)
  next
    case True
    note sh = namelist_Dir_shape [OF True, of parent n sz paths]
    let ?arc = "arcpath parent n"
    from "3.prems" consider "s = path @ ''/''"
      | f where "f \<in> set paths" "is_file f" "s = joinpath path (name f)"
      | d where "d \<in> set paths" "is_dir d"
          "(s, a) \<in> set (yields (namelist A D (joinpath path (name d)) (Some ?arc) d))"
      unfolding sh by (auto simp: yields_def)
    then show ?thesis
    proof cases
      case 1
      then show ?thesis by (auto simp: evaluated_def)
    next
      case 2
      have "(joinpath path (name f), f) \<in> set (subnodes (joinpath path (name f)) f)"
        by (rule subnodes_self)
      moreover have "\<not> is_dir f" using 2(2) by (cases f) auto
      ultimately have "(s, f) \<in> set (subnodes path (Dir n sz paths))" "s = evaluated s (is_dir f)"
        using 2 by (auto simp: evaluated_def)
      then show ?thesis by blast
    next
      case 3
      have "d \<in> set (sort_key name (filter is_dir paths))" using 3 by simp
      from "3.IH"(2) [OF _ refl refl refl this 3(3)] True
      obtain q x where "(q, x) \<in> set (subnodes (joinpath path (name d)) d)"
        "s = evaluated q (is_dir x)" by auto
      with 3(1) show ?thesis by auto
    qed
  qed
qed (auto simp: yields_def evaluated_def split: if_splits)

lemma name_split_unique:
  assumes "n @ r = n' @ r'" "CHR ''/'' \<notin> set n" "CHR ''/'' \<notin> set n'"
    "r = [] \<or> hd r = CHR ''/''" "r' = [] \<or> hd r' = CHR ''/''"
  shows "n = n'"
proof -
  have "takeWhile (\<lambda>c. c \<noteq> CHR ''/'') (n @ r) = n" if "CHR ''/'' \<notin> set n" "r = [] \<or> hd r = CHR ''/''" for n r
    using that by (cases r) (auto simp: takeWhile_tail takeWhile_eq_all_conv)
  then show ?thesis using assms by metis
qed


text \<open>
  C6: for every tree with the names a file system gives it, enumerated from an absolute
  path, and every filter configuration: if the node \<open>d\<close> at path \<open>p\<close> of the tree fails the
  validity check, then no node \<open>x\<close> at or below \<open>d\<close> appears as a source path of the
  enumeration, whatever the check would say of \<open>x\<close> itself.
\<close>

theorem namelist_prunes:
  assumes "wf_tree t" and "startswith path ''/''"
    and "(p, d) \<in> set (subnodes path t)" and "\<not> isValid A D p (is_dir d)"
    and "(q, x) \<in> set (subnodes p d)"
  shows "evaluated q (is_dir x) \<notin> fst ` set (yields (namelist A D path parent t))"
  using assms
proof (induction path t arbitrary: parent rule: subnodes.induct)
  case (1 path n sz paths)
  let ?t = "Dir n sz paths"
  let ?e = "evaluated q (is_dir x)"
  show ?case
  proof (cases "isValid A D path True")
    case False
    then show ?thesis by (simp add: yields_def)
  next
    case True
    then have "(p, d) \<noteq> (path, ?t)" using "1.prems"(4) by auto
    with "1.prems"(3) obtain c where c: "c \<in> set paths"
      "(p, d) \<in> set (subnodes (joinpath path (name c)) c)" by auto
    let ?pfx = "if path = ''/'' then ''/'' else path @ ''/''"
    have wfc: "name k \<noteq> []" "CHR ''/'' \<notin> set (name k)" "wf_tree k" if "k \<in> set paths" for k
      using "1.prems"(1) that by (auto simp: list_all_iff)
    have jp: "joinpath path (name k) = ?pfx @ name k"
      "startswith (joinpath path (name k)) ''/''" "joinpath path (name k) \<noteq> ''/''"
      if "k \<in> set paths" for k
      using joinpath_abs [OF "1.prems"(2) wfc(1) [OF that]] by auto
    have below: "\<exists>r. evaluated q' (is_dir x') = ?pfx @ name k @ r \<and> (r = [] \<or> hd r = CHR ''/'')"
      if "k \<in> set paths" "(q', x') \<in> set (subnodes (joinpath path (name k)) k)" for k q' x'
      using subnodes_below [OF wfc(3) [OF that(1)] jp(2) [OF that(1)] jp(3) [OF that(1)] that(2)]
        jp(1) [OF that(1)] by auto
    have qx: "(q, x) \<in> set (subnodes (joinpath path (name c)) c)"
      using subnodes_trans [OF c(2) "1.prems"(5)] .
    from below [OF c(1) qx] obtain r where r: "?e = ?pfx @ name c @ r" "r = [] \<or> hd r = CHR ''/''"
      by blast
    have not_self: "?e \<noteq> path @ ''/''"
    proof
      assume "?e = path @ ''/''"
      with r(1) have "name c @ r = (if path = ''/'' then ''/'' else [])"
        by (auto split: if_splits)
      with wfc(1,2) [OF c(1)] show False by (cases "name c") (auto split: if_splits)
    qed
    have not_child: "?e \<notin> fst ` set (yields (namelist A D (joinpath path (name k)) par k))"
      if k: "k \<in> set paths" for k par
    proof (cases "k = c")
      case True
      from "1.IH" [OF c(1) wfc(3) [OF c(1)] jp(2) [OF c(1)] c(2) "1.prems"(4) "1.prems"(5)]
      show ?thesis using True by simp
    next
      case False
      have ne: "name k \<noteq> name c"
        using False k c(1) "1.prems"(1) by (auto simp: distinct_map inj_on_def)
      show ?thesis
      proof
        assume "?e \<in> fst ` set (yields (namelist A D (joinpath path (name k)) par k))"
        then obtain a where "(?e, a) \<in> set (yields (namelist A D (joinpath path (name k)) par k))"
          by auto
        from namelist_subset [OF this] obtain q' x'
          where "(q', x') \<in> set (subnodes (joinpath path (name k)) k)"
            "?e = evaluated q' (is_dir x')" by auto
        with below [OF k] obtain r' where r': "?e = ?pfx @ name k @ r'" "r' = [] \<or> hd r' = CHR ''/''"
          by metis
        from r(1) r'(1) have "name c @ r = name k @ r'" by simp
        from name_split_unique [OF this wfc(2) [OF c(1)] wfc(2) [OF k] r(2) r'(2)] ne
        show False by simp
      qed
    qed
    note sh = namelist_Dir_shape [OF True, of parent n sz paths]
    show ?thesis
    proof
      assume "?e \<in> fst ` set (yields (namelist A D path parent ?t))"
      then obtain a where a: "(?e, a) \<in> set (yields (namelist A D path parent ?t))" by auto
      let ?arc = "arcpath parent n"
      from a consider "?e = path @ ''/''"
        | f where "f \<in> set paths" "is_file f" "isValid A D (joinpath path (name f)) False"
            "?e = joinpath path (name f)"
        | k where "k \<in> set paths"
            "(?e, a) \<in> set (yields (namelist A D (joinpath path (name k)) (Some ?arc) k))"
        unfolding sh by (auto simp: yields_def)
      then show False
      proof cases
        case 1
        with not_self show False by simp
      next
        case 2
        then have "yields (namelist A D (joinpath path (name f)) (Some ?arc) f)
            = [(?e, joinpath ?arc (name f))]"
          by (simp add: namelist_file)
        with not_child [OF 2(1), of "Some ?arc"] show False by simp
      next
        case 3
        with not_child [OF 3(1), of "Some ?arc"] show False by force
      qed
    qed
  qed
qed (auto simp: yields_def)

theorem namelist_prunes_witness:
  "wf_tree project
   \<and> startswith ''/home/u/proj'' ''/''
   \<and> (''/home/u/proj/__pycache__'', Dir ''__pycache__'' 4096 [File ''keep.pyc'' 3])
        \<in> set (subnodes ''/home/u/proj'' project)
   \<and> \<not> isValid {''keep''} DEFAULT_DENYLIST ''/home/u/proj/__pycache__'' True
   \<and> (''/home/u/proj/__pycache__/keep.pyc'', File ''keep.pyc'' 3)
        \<in> set (subnodes ''/home/u/proj/__pycache__'' (Dir ''__pycache__'' 4096 [File ''keep.pyc'' 3]))
   \<and> isValid {''keep''} DEFAULT_DENYLIST ''/home/u/proj/__pycache__/keep.pyc'' False
   \<and> ''/home/u/proj/__pycache__/keep.pyc''
        \<notin> fst ` set (yields (namelist {''keep''} DEFAULT_DENYLIST ''/home/u/proj'' None project))"
proof -
  let ?d = "Dir ''__pycache__'' 4096 [File ''keep.pyc'' 3]"
  have 1: "wf_tree project" by (simp add: project_def)
  have 2: "startswith ''/home/u/proj'' ''/''" by simp
  have 3: "(''/home/u/proj/__pycache__'', ?d) \<in> set (subnodes ''/home/u/proj'' project)"
    by (simp add: project_def joinpath_def)
  have 4: "\<not> isValid {''keep''} DEFAULT_DENYLIST ''/home/u/proj/__pycache__'' (is_dir ?d)"
    by (simp add: isValid_def DEFAULT_DENYLIST_def)
  have 5: "(''/home/u/proj/__pycache__/keep.pyc'', File ''keep.pyc'' 3)
        \<in> set (subnodes ''/home/u/proj/__pycache__'' ?d)"
    by (simp add: joinpath_def)
  have 6: "isValid {''keep''} DEFAULT_DENYLIST ''/home/u/proj/__pycache__/keep.pyc'' False"
    by (simp add: isValid_def DEFAULT_DENYLIST_def)
  from namelist_prunes [OF 1 2 3 4 5, of None]
  have 7: "''/home/u/proj/__pycache__/keep.pyc''
        \<notin> fst ` set (yields (namelist {''keep''} DEFAULT_DENYLIST ''/home/u/proj'' None project))"
    by (simp add: evaluated_def)
  from 1 2 3 4 5 6 7 show ?thesis by simp
qed

section \<open>The retention scan\<close>

lemma parse_date_error: "parse_date parts = Inl e \<Longrightarrow> e = ValueError"
  by (auto simp: parse_date_def mk_datetime_def split: option.splits if_splits)

lemma find_files_Cons:
  "find_files s (e # l) =
     (case scan1 s e of Inl x \<Rightarrow> Inl x
      | Inr r \<Rightarrow> (case find_files s l of Inl x \<Rightarrow> Inl x | Inr fs \<Rightarrow> Inr (r @ fs)))"
  by (cases e) (auto simp: scan1_def Let_def split: sum.splits)

lemma scan1_error: "scan1 s e = Inl x \<Longrightarrow> x = ValueError"
  by (cases e) (auto simp: scan1_def Let_def split: sum.splits if_splits dest: parse_date_error)

lemma scan1_fst: "scan1 s e = Inr r \<Longrightarrow> r = [] \<or> (\<exists>d. r = [(fst e, d)])"
  by (cases e) (auto simp: scan1_def Let_def split: sum.splits if_splits)

lemma find_files_closed:
  "find_files s l =
     (if \<forall>e \<in> set l. \<exists>r. scan1 s e = Inr r
      then Inr (concat (map (\<lambda>e. yields (scan1 s e)) l)) else Inl ValueError)"
proof (induction l)
  case Nil
  then show ?case by simp
next
  case (Cons e l)
  show ?case
  proof (cases "scan1 s e")
    case (Inl x)
    then show ?thesis using scan1_error [OF Inl] by (auto simp: find_files_Cons)
  next
    case (Inr r)
    then show ?thesis using Cons by (auto simp: find_files_Cons yields_def)
  qed
qed

lemma find_files_filter:
  assumes "find_files s l = Inr fs"
  shows "find_files s (filter (\<lambda>(n, e). Q n) l) = Inr (filter (\<lambda>(n, d). Q n) fs)"
proof -
  have ok: "\<forall>e \<in> set l. \<exists>r. scan1 s e = Inr r"
    and fs: "fs = concat (map (\<lambda>e. yields (scan1 s e)) l)"
    using assms unfolding find_files_closed [of s l] by (auto split: if_splits)
  have "concat (map (\<lambda>e. yields (scan1 s e)) (filter (\<lambda>(n, e). Q n) l))
      = filter (\<lambda>(n, d). Q n) (concat (map (\<lambda>e. yields (scan1 s e)) l))"
    using ok
  proof (induction l)
    case (Cons e l)
    then obtain r where r: "scan1 s e = Inr r" by auto
    from scan1_fst [OF r] show ?case using Cons r by (cases e) (auto simp: yields_def)
  qed simp
  then show ?thesis using ok fs unfolding find_files_closed [of s "filter _ l"] by auto
qed

lemma find_files_perm:
  assumes "find_files s l = Inr fs" and "mset l' = mset l"
  shows "\<exists>fs'. find_files s l' = Inr fs' \<and> mset fs' = mset fs"
proof -
  have ok: "\<forall>e \<in> set l. \<exists>r. scan1 s e = Inr r"
    and fs: "fs = concat (map (\<lambda>e. yields (scan1 s e)) l)"
    using assms(1) unfolding find_files_closed [of s l] by (auto split: if_splits)
  have "set l' = set l" using assms(2) by (rule mset_eq_setD)
  then have ok': "\<forall>e \<in> set l'. \<exists>r. scan1 s e = Inr r" using ok by simp
  have sum: "mset (concat (map f k)) = (\<Sum>x \<in># mset k. mset (f x))"
    for f :: "string \<times> bool \<Rightarrow> (string \<times> datetime) list" and k
    by (induction k) auto
  have "mset (concat (map f l')) = mset (concat (map f l))"
    for f :: "string \<times> bool \<Rightarrow> (string \<times> datetime) list"
    unfolding sum assms(2) ..
  then show ?thesis using ok' fs unfolding find_files_closed [of s l'] by auto
qed

lemma yields_scan1_cases:
  "yields (scan1 s e) = [] \<or> (\<exists>d. yields (scan1 s e) = [(fst e, d)])"
proof (cases "scan1 s e")
  case (Inl a)
  then show ?thesis by (simp add: yields_def)
next
  case (Inr r)
  from scan1_fst [OF Inr] show ?thesis unfolding yields_def Inr by simp
qed

lemma scanned_names:
  "map fst (concat (map (\<lambda>e. yields (scan1 s e)) l))
     = map fst (filter (\<lambda>e. yields (scan1 s e) \<noteq> []) l)"
proof (induction l)
  case Nil
  show ?case by simp
next
  case (Cons e l)
  from yields_scan1_cases [of s e] show ?case
  proof
    assume "yields (scan1 s e) = []"
    then show ?thesis using Cons by simp
  next
    assume "\<exists>d. yields (scan1 s e) = [(fst e, d)]"
    then obtain d where "yields (scan1 s e) = [(fst e, d)]" ..
    then show ?thesis using Cons by simp
  qed
qed

lemma find_files_distinct:
  assumes "find_files s l = Inr fs" and "distinct (map fst l)"
  shows "distinct (map fst fs)"
proof -
  have fs: "fs = concat (map (\<lambda>e. yields (scan1 s e)) l)"
    using assms(1) unfolding find_files_closed [of s l] by (simp split: if_splits)
  show ?thesis unfolding fs scanned_names using assms(2) by (rule distinct_map_filter)
qed

lemmas scan_eval = suffix_def parse_date_def py_int_def strip_def isspace_def isdigit_def
  digit_value_def mk_datetime_def days_in_month_def is_leap_def remainder_def Let_def

lemma find_files_listing_x:
  "find_files session_x listing_x =
     Inr [(''2023-11-02-x.zip'', \<lparr>year = 2023, month = 11, day = 2\<rparr>),
          (''2023-11-20-x.zip'', \<lparr>year = 2023, month = 11, day = 20\<rparr>),
          (''2023-12-05-x.zip'', \<lparr>year = 2023, month = 12, day = 5\<rparr>)]"
  by (simp add: scan_eval session_x_def listing_x_def)

text \<open>
  C8: the scan does not skip every entry whose first ten characters are not a date. It
  skips an entry that does not split into three parts at the minus signs
  (\<^verbatim>\<open>holiday-photos.zip\<close>), but a \<^verbatim>\<open>.zip\<close> entry with three parts of which one is not a number
  (\<^verbatim>\<open>my-old-backup.zip\<close>) or whose numbers are no date (\<^verbatim>\<open>2023-13-45-x.zip\<close>) raises
  \<^verbatim>\<open>ValueError\<close>, and so does the retention pass over a directory that holds one.
\<close>

theorem find_files_raises:
  "find_files session_x [(''my-old-backup.zip'', False)] = Inl ValueError
   \<and> find_files session_x [(''2023-13-45-x.zip'', False)] = Inl ValueError
   \<and> auto_clean session_x (listing_x @ [(''2023-13-45-x.zip'', False)]) = Inl ValueError
   \<and> find_files session_x [(''holiday-photos.zip'', False)] = Inr []"
  by (simp add: scan_eval session_x_def listing_x_def auto_clean_def)

section \<open>The retention pass\<close>

lemma unlink_loop_gone: "unlink_loop res xs = map fst (gone_loop res xs)"
  by (induction res xs rule: unlink_loop.induct) auto

lemma gone_kept_mset: "mset (gone_loop res xs) + mset (kept_loop res xs) = mset xs"
  by (induction res xs rule: gone_loop.induct) auto

lemma ym_mono: "date_key (snd a) \<le> date_key (snd b) \<Longrightarrow> ym a \<le> ym b"
  by (auto simp: date_key_def ym_def less_eq_prod_def)

lemma same_month_iff:
  "(month (snd x) = month (snd r) \<and> year (snd x) = year (snd r)) \<longleftrightarrow> ym x = ym r"
  by (auto simp: ym_def)

lemma kept_decreasing:
  "sorted_wrt (\<lambda>a b. date_key (snd b) \<le> date_key (snd a)) (r # xs) \<Longrightarrow>
   sorted_wrt (\<lambda>a b. ym b < ym a) (r # kept_loop (snd r) xs)"
proof (induction xs arbitrary: r)
  case Nil
  then show ?case by simp
next
  case (Cons x xs)
  from Cons.prems have s: "sorted_wrt (\<lambda>a b. date_key (snd b) \<le> date_key (snd a)) (x # xs)"
    and le: "ym x \<le> ym r" by (auto intro: ym_mono)
  note IH = Cons.IH [OF s]
  show ?case
  proof (cases "ym x = ym r")
    case True
    then show ?thesis using IH by (simp add: same_month_iff)
  next
    case False
    with le have lt: "ym x < ym r" by simp
    have "\<forall>k \<in> set (kept_loop (snd x) xs). ym k < ym r"
      using IH lt by auto
    with False IH lt show ?thesis by (simp add: same_month_iff)
  qed
qed

lemma kept_covers:
  "sorted_wrt (\<lambda>a b. date_key (snd b) \<le> date_key (snd a)) (r # xs) \<Longrightarrow>
   z \<in> set (r # xs) \<Longrightarrow>
   \<exists>k \<in> set (r # kept_loop (snd r) xs). ym k = ym z \<and> date_key (snd z) \<le> date_key (snd k)"
proof (induction xs arbitrary: r)
  case Nil
  then show ?case by auto
next
  case (Cons x xs)
  from Cons.prems have s: "sorted_wrt (\<lambda>a b. date_key (snd b) \<le> date_key (snd a)) (x # xs)"
    and xr: "date_key (snd x) \<le> date_key (snd r)" by auto
  show ?case
  proof (cases "z = r")
    case True
    then show ?thesis by auto
  next
    case False
    with Cons.prems have "z \<in> set (x # xs)" by auto
    from Cons.IH [OF s this] obtain k where k: "k \<in> set (x # kept_loop (snd x) xs)"
      "ym k = ym z" "date_key (snd z) \<le> date_key (snd k)" by blast
    show ?thesis
    proof (cases "k = x \<and> ym x = ym r")
      case True
      with k xr have "ym r = ym z" "date_key (snd z) \<le> date_key (snd r)" by auto
      then show ?thesis by auto
    next
      case False
      with k have "k \<in> set (kept_loop (snd r) (x # xs))"
        by (auto simp: same_month_iff)
      with k show ?thesis by auto
    qed
  qed
qed

lemma no_repeat_no_unlink:
  "distinct (map ym (r # xs)) \<Longrightarrow> unlink_loop (snd r) xs = []"
proof (induction xs arbitrary: r)
  case (Cons x xs)
  then have "ym x \<noteq> ym r" by auto
  moreover have "unlink_loop (snd x) xs = []" using Cons by simp
  ultimately show ?case by (cases x) (auto simp: ym_def)
qed simp

lemma sort_reverse_props:
  "mset (sort_reverse key xs) = mset xs"
  "sorted_wrt (\<lambda>a b. key b \<le> key a) (sort_reverse key xs)"
proof -
  show "mset (sort_reverse key xs) = mset xs" by (simp add: sort_reverse_def)
  have "sorted (map key (sort_key key (rev xs)))" by simp
  then have "sorted_wrt (\<lambda>a b. key a \<le> key b) (sort_key key (rev xs))"
    by (simp add: sorted_map)
  then show "sorted_wrt (\<lambda>a b. key b \<le> key a) (sort_reverse key xs)"
    by (simp add: sort_reverse_def sorted_wrt_rev)
qed

lemma ordered_props:
  "mset (ordered t found) = mset (candidates t found)"
  "sorted_wrt (\<lambda>a b. date_key (snd b) \<le> date_key (snd a)) (ordered t found)"
  unfolding ordered_def by (rule sort_reverse_props)+

lemma auto_clean_uniform:
  assumes "\<not> dateless s" and "today s = Some t" and "find_files s listing = Inr found"
  shows "auto_clean s listing =
     Inr (case ordered t found of [] \<Rightarrow> [] | r # xs \<Rightarrow> unlink_loop (snd r) xs)"
proof (cases "length (candidates t found) < 2")
  case True
  have "length (ordered t found) = length (candidates t found)"
    using ordered_props(1) [of t found] by (metis size_mset)
  with True have "length (ordered t found) < 2" by simp
  then have "(case ordered t found of [] \<Rightarrow> [] | r # xs \<Rightarrow> unlink_loop (snd r) xs) = []"
    by (cases "ordered t found"; cases "tl (ordered t found)") auto
  with True show ?thesis using assms by (simp add: auto_clean_def candidates_def)
next
  case False
  have "length (ordered t found) = length (candidates t found)"
    using ordered_props(1) [of t found] by (metis size_mset)
  with False obtain r xs where "ordered t found = r # xs" by (cases "ordered t found") auto
  with False show ?thesis using assms
    by (simp add: auto_clean_def candidates_def ordered_def Let_def)
qed

lemma removed_survivors_mset:
  "mset (removed t found) + mset (survivors t found) = mset (candidates t found)"
proof (cases "ordered t found")
  case Nil
  then show ?thesis using ordered_props(1) [of t found] by (simp add: removed_def survivors_def)
next
  case (Cons r xs)
  have "mset (removed t found) + mset (survivors t found) = mset (ordered t found)"
    using gone_kept_mset [of "snd r" xs] by (simp add: removed_def survivors_def Cons)
  then show ?thesis using ordered_props(1) [of t found] by simp
qed

lemma survivors_distinct_months: "distinct (map ym (survivors t found))"
proof (cases "ordered t found")
  case Nil
  then show ?thesis by (simp add: survivors_def)
next
  case (Cons r xs)
  from ordered_props(2) [of t found] kept_decreasing [of r xs]
  have "sorted_wrt (\<lambda>a b. ym b < ym a) (r # kept_loop (snd r) xs)" by (simp add: Cons)
  then have "sorted_wrt (\<lambda>a b. a > b) (map ym (r # kept_loop (snd r) xs))"
    by (simp only: sorted_wrt_map)
  then have "sorted_wrt (<) (rev (map ym (r # kept_loop (snd r) xs)))"
    by (simp only: sorted_wrt_rev)
  then have "distinct (rev (map ym (r # kept_loop (snd r) xs)))"
    by (simp only: strict_sorted_iff)
  then have "distinct (map ym (r # kept_loop (snd r) xs))"
    by (simp only: distinct_rev)
  then show ?thesis by (simp add: survivors_def Cons)
qed

lemma auto_clean_removed:
  assumes "\<not> dateless s" and "today s = Some t" and "find_files s listing = Inr found"
  shows "auto_clean s listing = Inr (map fst (removed t found))"
  unfolding auto_clean_uniform [OF assms] removed_def
  by (cases "ordered t found") (simp_all add: unlink_loop_gone)

lemma distinct_submset:
  assumes "mset xs \<subseteq># mset ys" and "distinct ys"
  shows "distinct xs"
proof -
  have "count (mset xs) a = (if a \<in> set xs then 1 else 0)" for a
  proof (cases "a \<in> set xs")
    case True
    then have "0 < count (mset xs) a" by (rule count_mset_gt_0)
    moreover have "count (mset xs) a \<le> count (mset ys) a"
      using assms(1) by (rule mset_subset_eq_count)
    moreover have "count (mset ys) a \<le> 1"
      using assms(2) by (simp add: distinct_count_atmost_1)
    ultimately show ?thesis using True by arith
  next
    case False
    then show ?thesis by simp
  qed
  then show ?thesis by (simp add: distinct_count_atmost_1)
qed

lemma distinct_map_submset:
  assumes "mset A \<subseteq># mset B" and "distinct (map g B)"
  shows "distinct (map g A)"
proof -
  have "mset (map g A) \<subseteq># mset (map g B)"
    using image_mset_subseteq_mono [OF assms(1), of g] by simp
  then show ?thesis using assms(2) by (rule distinct_submset)
qed

lemma candidates_after:
  assumes "mset found' = mset (filter (\<lambda>(n, d). n \<notin> fst ` set (removed t found)) found)"
  shows "mset (candidates t found') \<subseteq># mset (survivors t found)"
proof -
  let ?Q = "\<lambda>x :: string \<times> datetime. fst x \<notin> fst ` set (removed t found)"
  let ?P = "\<lambda>x :: string \<times> datetime. is_past t (snd x)"
  have "mset (candidates t found') = filter_mset ?P (mset found')"
    by (simp add: candidates_def case_prod_unfold)
  also have "\<dots> = filter_mset ?P (filter_mset ?Q (mset found))"
    unfolding assms by (simp add: case_prod_unfold)
  also have "\<dots> = filter_mset ?Q (filter_mset ?P (mset found))"
    by (simp add: filter_filter_mset conj_commute)
  also have "filter_mset ?P (mset found) = mset (removed t found) + mset (survivors t found)"
    using removed_survivors_mset [of t found] by (simp add: candidates_def case_prod_unfold)
  also have "filter_mset ?Q (mset (removed t found) + mset (survivors t found))
      = filter_mset ?Q (mset (survivors t found))"
    by auto
  finally show ?thesis by simp
qed

lemma auto_clean_listing_x:
  "auto_clean session_x listing_x = Inr [''2023-11-02-x.zip'']"
  unfolding auto_clean_def find_files_listing_x
  by (simp add: session_x_def is_past_def sort_reverse_def date_key_def)

text \<open>
  C9: retention is idempotent. If one run of \<^verbatim>\<open>__auto_clean\<close> returns, having unlinked
  \<open>deleted\<close>, then a second run of the same session (the same current date) on the
  directory that is left, in whatever order it is listed and with no entry added, returns
  and unlinks nothing.
\<close>

theorem auto_clean_idempotent:
  assumes "auto_clean s listing = Inr deleted"
    and "mset listing' = mset (unlink_all deleted listing)"
  shows "auto_clean s listing' = Inr []"
proof (cases "dateless s")
  case True
  then show ?thesis by (simp add: auto_clean_def)
next
  case False
  from assms(1) False obtain found where found: "find_files s listing = Inr found"
    by (auto simp: auto_clean_def split: sum.splits)
  from find_files_filter [OF found, of "\<lambda>n. n \<notin> set deleted"]
  have "find_files s (unlink_all deleted listing)
      = Inr (filter (\<lambda>(n, d). n \<notin> set deleted) found)"
    by (simp add: unlink_all_def)
  from find_files_perm [OF this assms(2)] obtain found' where found':
    "find_files s listing' = Inr found'"
    "mset found' = mset (filter (\<lambda>(n, d). n \<notin> set deleted) found)" by blast
  show ?thesis
  proof (cases "today s")
    case None
    with assms(1) False found have "found = []"
      by (auto simp: auto_clean_def split: if_splits)
    with found'(2) have "found' = []" by simp
    with None False found'(1) show ?thesis by (simp add: auto_clean_def)
  next
    case (Some t)
    from auto_clean_removed [OF False Some found] assms(1)
    have del: "deleted = map fst (removed t found)" by simp
    from found'(2) have "mset found' =
        mset (filter (\<lambda>(n, d). n \<notin> fst ` set (removed t found)) found)"
      by (simp add: del)
    from candidates_after [OF this] survivors_distinct_months [of t found]
    have "distinct (map ym (candidates t found'))" by (rule distinct_map_submset)
    moreover have "mset (map ym (ordered t found')) = mset (map ym (candidates t found'))"
      using ordered_props(1) [of t found'] by simp
    ultimately have d: "distinct (map ym (ordered t found'))"
      by (metis mset_eq_imp_distinct_iff)
    have "(case ordered t found' of [] \<Rightarrow> [] | r # xs \<Rightarrow> unlink_loop (snd r) xs) = []"
    proof (cases "ordered t found'")
      case (Cons r xs)
      with d no_repeat_no_unlink [of r xs] show ?thesis by simp
    qed simp
    with auto_clean_uniform [OF False Some found'(1)] show ?thesis by simp
  qed
qed

theorem auto_clean_idempotent_witness:
  "auto_clean session_x listing_x = Inr [''2023-11-02-x.zip'']
   \<and> mset [(''2023-12-05-x.zip'', False), (''cache'', True), (''2023-11-20-x.zip'', False)]
       = mset (unlink_all [''2023-11-02-x.zip''] listing_x)
   \<and> auto_clean session_x
        [(''2023-12-05-x.zip'', False), (''cache'', True), (''2023-11-20-x.zip'', False)] = Inr []"
proof -
  let ?l = "[(''2023-12-05-x.zip'', False), (''cache'', True), (''2023-11-20-x.zip'', False)]"
  have 1: "auto_clean session_x listing_x = Inr [''2023-11-02-x.zip'']"
    by (rule auto_clean_listing_x)
  have 2: "mset ?l = mset (unlink_all [''2023-11-02-x.zip''] listing_x)"
    by (simp add: unlink_all_def listing_x_def)
  from auto_clean_idempotent [OF 1 2] have 3: "auto_clean session_x ?l = Inr []" .
  from 1 2 3 show ?thesis by simp
qed

lemma is_past_chronological:
  "year d \<le> year t \<Longrightarrow> is_past t d \<longleftrightarrow> (year d, month d) < (year t, month t)"
  by (auto simp: is_past_def less_prod_def)

lemma removed_survivors_set:
  "set (candidates t found) = set (removed t found) \<union> set (survivors t found)"
proof -
  have "set_mset (mset (candidates t found))
      = set_mset (mset (removed t found) + mset (survivors t found))"
    by (simp only: removed_survivors_mset)
  then show ?thesis by simp
qed

lemma removed_survivors_disjoint:
  assumes "distinct (map fst (candidates t found))"
  shows "fst ` set (removed t found) \<inter> fst ` set (survivors t found) = {}"
proof -
  have "mset (map fst (removed t found @ survivors t found))
      = mset (map fst (candidates t found))"
    using removed_survivors_mset [of t found] by (metis mset_append mset_map)
  then have "distinct (map fst (removed t found @ survivors t found))"
    using assms by (metis mset_eq_imp_distinct_iff)
  then show ?thesis by auto
qed

lemma candidates_distinct:
  assumes "find_files s listing = Inr found" and "distinct (map fst listing)"
  shows "distinct (map fst (candidates t found))"
  unfolding candidates_def using find_files_distinct [OF assms] by (rule distinct_map_filter)

lemma survivors_cover:
  assumes "x \<in> set (candidates t found)"
  shows "\<exists>k \<in> set (survivors t found). ym k = ym x \<and> date_key (snd x) \<le> date_key (snd k)"
proof (cases "ordered t found")
  case Nil
  with ordered_props(1) [of t found] assms show ?thesis by simp
next
  case (Cons r xs)
  have "set (ordered t found) = set (candidates t found)"
    using ordered_props(1) [of t found] by (rule mset_eq_setD)
  with assms Cons have x: "x \<in> set (r # xs)" by simp
  from ordered_props(2) [of t found] Cons
  have "sorted_wrt (\<lambda>a b. date_key (snd b) \<le> date_key (snd a)) (r # xs)" by simp
  from kept_covers [OF this x] show ?thesis by (simp add: survivors_def Cons)
qed

text \<open>
  C2: the test that makes a backup a deletion candidate is
  \<^verbatim>\<open>date.year < today.year or date.month < today.month\<close>, which is not the comparison of
  (year, month) with the current (year, month): a backup dated in a later year is a
  candidate whenever its month number is below the current one. Today is 10 December
  2023: the backups of 5 and 20 January 2024 are not before December 2023, yet both are
  candidates and the first is unlinked, while two backups of December 2024 are no
  candidates and are left alone.
\<close>

theorem auto_clean_later_year:
  "today session_x = Some \<lparr>year = 2023, month = 12, day = 10\<rparr>
   \<and> find_files session_x [(''2024-01-05-x.zip'', False), (''2024-01-20-x.zip'', False)] =
     Inr [(''2024-01-05-x.zip'', \<lparr>year = 2024, month = 1, day = 5\<rparr>),
          (''2024-01-20-x.zip'', \<lparr>year = 2024, month = 1, day = 20\<rparr>)]
   \<and> \<not> (2024 :: nat, 1 :: nat) < (2023, 12)
   \<and> is_past \<lparr>year = 2023, month = 12, day = 10\<rparr> \<lparr>year = 2024, month = 1, day = 5\<rparr>
   \<and> auto_clean session_x [(''2024-01-05-x.zip'', False), (''2024-01-20-x.zip'', False)] =
     Inr [''2024-01-05-x.zip'']
   \<and> auto_clean session_x [(''2024-12-05-x.zip'', False), (''2024-12-20-x.zip'', False)] =
     Inr []"
  by (simp add: scan_eval session_x_def auto_clean_def is_past_def sort_reverse_def date_key_def)

text \<open>
  The rest of the retention pass is as the specification describes it, whatever the
  dates. For every destination directory whose scan returns: only candidates are
  unlinked; a backup that is no candidate, so every backup of the current month, is never
  unlinked; every candidate has a candidate of its own (year, month) that is kept and is
  dated no earlier; and no two candidates of one (year, month) are both kept (of several
  backups of one month that bear its latest date, one is kept). The candidate test agrees
  with the comparison of (year, month) for every backup dated in no later year than the
  current one.
\<close>

theorem auto_clean_keeps_latest:
  assumes "\<not> dateless s" and "today s = Some t"
    and "distinct (map fst listing)"
    and "find_files s listing = Inr found"
  shows "\<exists>deleted. auto_clean s listing = Inr deleted
     \<and> set deleted \<subseteq> fst ` set (candidates t found)
     \<and> (\<forall>(p, d) \<in> set found. \<not> is_past t d \<longrightarrow> p \<notin> set deleted)
     \<and> (\<forall>(p, d) \<in> set found. year d = year t \<and> month d = month t \<longrightarrow> p \<notin> set deleted)
     \<and> (\<forall>x \<in> set (candidates t found). \<exists>k \<in> set (candidates t found).
           fst k \<notin> set deleted \<and> ym k = ym x \<and> date_key (snd x) \<le> date_key (snd k))
     \<and> (\<forall>x \<in> set (candidates t found). \<forall>y \<in> set (candidates t found).
           fst x \<notin> set deleted \<and> fst y \<notin> set deleted \<and> ym x = ym y \<longrightarrow> x = y)
     \<and> (\<forall>(p, d) \<in> set found. year d \<le> year t \<longrightarrow>
           (is_past t d \<longleftrightarrow> (year d, month d) < (year t, month t)))"
proof -
  let ?del = "map fst (removed t found)"
  let ?C = "candidates t found"
  have run: "auto_clean s listing = Inr ?del"
    using assms(1,2,4) by (rule auto_clean_removed)
  have dC: "distinct (map fst ?C)" using assms(4,3) by (rule candidates_distinct)
  have dF: "distinct (map fst found)" using assms(4,3) by (rule find_files_distinct)
  have sets: "set ?C = set (removed t found) \<union> set (survivors t found)"
    by (rule removed_survivors_set)
  have disj: "fst ` set (removed t found) \<inter> fst ` set (survivors t found) = {}"
    using dC by (rule removed_survivors_disjoint)
  have kept: "fst k \<notin> set ?del" if "k \<in> set (survivors t found)" for k
    using disj that by auto
  have surv: "x \<in> set (survivors t found)" if "x \<in> set ?C" "fst x \<notin> set ?del" for x
    using that sets by auto
  have 1: "\<forall>(p, d) \<in> set found. year d \<le> year t \<longrightarrow>
      (is_past t d \<longleftrightarrow> (year d, month d) < (year t, month t))"
    by (auto simp: is_past_chronological)
  have 2: "set ?del \<subseteq> fst ` set ?C" using sets by auto
  have 3: "\<forall>(p, d) \<in> set found. \<not> is_past t d \<longrightarrow> p \<notin> set ?del"
  proof (clarify)
    fix p d
    assume pd: "(p, d) \<in> set found" and np: "\<not> is_past t d" and "p \<in> set ?del"
    then obtain e where e: "(p, e) \<in> set ?C" using 2 by auto
    then have "(p, e) \<in> set found" "is_past t e" by (auto simp: candidates_def)
    with pd dF have "e = d" by (meson eq_key_imp_eq_value)
    with np \<open>is_past t e\<close> show False by simp
  qed
  have 6: "\<forall>(p, d) \<in> set found. year d = year t \<and> month d = month t \<longrightarrow> p \<notin> set ?del"
    using 3 by (auto simp: is_past_def)
  have 4: "\<forall>x \<in> set ?C. \<exists>k \<in> set ?C.
      fst k \<notin> set ?del \<and> ym k = ym x \<and> date_key (snd x) \<le> date_key (snd k)"
  proof
    fix x assume "x \<in> set ?C"
    from survivors_cover [OF this] obtain k where "k \<in> set (survivors t found)"
      "ym k = ym x" "date_key (snd x) \<le> date_key (snd k)" by blast
    with kept [of k] sets show "\<exists>k \<in> set ?C.
      fst k \<notin> set ?del \<and> ym k = ym x \<and> date_key (snd x) \<le> date_key (snd k)" by blast
  qed
  have 5: "\<forall>x \<in> set ?C. \<forall>y \<in> set ?C.
      fst x \<notin> set ?del \<and> fst y \<notin> set ?del \<and> ym x = ym y \<longrightarrow> x = y"
  proof (intro ballI impI)
    fix x y assume "x \<in> set ?C" "y \<in> set ?C"
      and h: "fst x \<notin> set ?del \<and> fst y \<notin> set ?del \<and> ym x = ym y"
    then have "x \<in> set (survivors t found)" "y \<in> set (survivors t found)"
      using surv by blast+
    moreover have "inj_on ym (set (survivors t found))"
      using survivors_distinct_months [of t found] by (simp add: distinct_map)
    ultimately show "x = y" using h by (auto dest: inj_onD)
  qed
  from run 1 2 3 4 5 6 show ?thesis by blast
qed

text \<open>
  The retention example of the specification: with archives dated 2023-11-02, 2023-11-20
  and 2023-12-05 and today 2023-12-10, exactly 2023-11-02 is unlinked; and so it is when
  a backup of 31 December 2024 stands beside them.
\<close>

theorem auto_clean_keeps_latest_example:
  "\<not> dateless session_x
   \<and> today session_x = Some \<lparr>year = 2023, month = 12, day = 10\<rparr>
   \<and> distinct (map fst listing_x)
   \<and> find_files session_x listing_x =
       Inr [(''2023-11-02-x.zip'', \<lparr>year = 2023, month = 11, day = 2\<rparr>),
            (''2023-11-20-x.zip'', \<lparr>year = 2023, month = 11, day = 20\<rparr>),
            (''2023-12-05-x.zip'', \<lparr>year = 2023, month = 12, day = 5\<rparr>)]
   \<and> auto_clean session_x listing_x = Inr [''2023-11-02-x.zip'']
   \<and> auto_clean session_x (listing_x @ [(''2024-12-31-x.zip'', False)])
       = Inr [''2023-11-02-x.zip'']"
proof -
  let ?t = "\<lparr>year = 2023, month = 12, day = 10\<rparr>"
  let ?found = "[(''2023-11-02-x.zip'', \<lparr>year = 2023, month = 11, day = 2\<rparr>),
            (''2023-11-20-x.zip'', \<lparr>year = 2023, month = 11, day = 20\<rparr>),
            (''2023-12-05-x.zip'', \<lparr>year = 2023, month = 12, day = 5\<rparr>)]"
  have 1: "\<not> dateless session_x" by (simp add: session_x_def)
  have 2: "today session_x = Some ?t" by (simp add: session_x_def)
  have 3: "distinct (map fst listing_x)" by (simp add: listing_x_def)
  have 4: "find_files session_x listing_x = Inr ?found" by (rule find_files_listing_x)
  from auto_clean_keeps_latest [OF 1 2 3 4] obtain deleted
    where d: "auto_clean session_x listing_x = Inr deleted"
      "set deleted \<subseteq> fst ` set (candidates ?t ?found)" by blast
  have "deleted = [''2023-11-02-x.zip'']" using d(1) by (simp add: auto_clean_listing_x)
  moreover have "auto_clean session_x (listing_x @ [(''2024-12-31-x.zip'', False)])
       = Inr [''2023-11-02-x.zip'']"
    by (simp add: scan_eval session_x_def listing_x_def auto_clean_def is_past_def
        sort_reverse_def date_key_def)
  ultimately show ?thesis using 1 2 3 4 d(1) by simp
qed

section \<open>The config record\<close>

lemma info_public:
  "info s = JObj ([(''allowlist'', JList (map JStr (sorted_list_of_set (allowlist s)))),
            (''denylist'', JList (map JStr (sorted_list_of_set (denylist s))))] @ public s)"
  by (simp add: info_def public_def)

lemma added_strings: "added (JList (map JStr xs)) = Inr (map JStr xs)"
  by (simp add: added_def list_all_iff)

lemma strings_back: "list_all is_str (map JStr xs)" "map str (map JStr xs) = xs"
  by (induction xs) auto

lemma public_keys:
  "(k, v) \<in> set (public s) \<Longrightarrow> k \<noteq> ''allowlist'' \<and> k \<noteq> ''denylist''"
  by (auto simp: public_def)

lemma filter_public:
  "filter (\<lambda>(name, value). name \<notin> {''allowlist'', ''denylist''}) (public s) = public s"
  unfolding public_def filter_filter by (rule filter_cong) auto

lemma map_of_fold_update:
  "distinct (map fst xs) \<Longrightarrow>
   map_of (fold (\<lambda>(name, value). AList.update name value) xs al) = map_of al ++ map_of xs"
proof (induction xs arbitrary: al)
  case Nil
  then show ?case by simp
next
  case (Cons x xs)
  let ?f = "\<lambda>(name, value). AList.update name value"
  obtain k v where x: "x = (k, v)" by (cases x)
  from Cons.prems x have k: "k \<notin> fst ` set xs" and d: "distinct (map fst xs)" by auto
  from k have n: "map_of xs k = None" by (simp add: map_of_eq_None_iff)
  have "map_of (fold ?f (x # xs) al) = map_of (fold ?f xs (AList.update k v al))"
    by (simp add: x)
  also have "\<dots> = map_of (AList.update k v al) ++ map_of xs" by (rule Cons.IH [OF d])
  also have "\<dots> = (map_of al)(k \<mapsto> v) ++ map_of xs" by (simp only: update_conv')
  also have "\<dots> = map_of al ++ (map_of xs)(k \<mapsto> v)"
    using n by (auto simp: map_add_def fun_eq_iff split: option.splits)
  also have "\<dots> = map_of al ++ map_of (x # xs)"
    by (simp only: x map_of.simps fst_conv snd_conv)
  finally show ?case .
qed

lemma distinct_fold_update:
  "distinct (map fst al) \<Longrightarrow>
   distinct (map fst (fold (\<lambda>(name, value). AList.update name value) xs al))"
  by (induction xs arbitrary: al) (auto simp: distinct_update)

lemma keys_fold_update:
  "fst ` set (fold (\<lambda>(name, value). AList.update name value) xs al) = fst ` set al \<union> fst ` set xs"
proof (induction xs arbitrary: al)
  case (Cons x xs)
  obtain k v where x: "x = (k, v)" by (cases x)
  have "fst ` set (AList.update k v al) = insert k (fst ` set al)"
    using dom_update [of k v al] by simp
  with Cons [of "AList.update k v al"] x show ?case by auto
qed simp

lemma load_proper:
  assumes "load j s = Built s'" and "proper s"
  shows "proper s'"
proof -
  from assms(1) obtain kvs allowed denied where
    s': "s' = s\<lparr>allowlist := allowlist s \<union> set (map str allowed),
              denylist := set (map str denied),
              attrs := fold (\<lambda>(name, value). AList.update name value)
                 (filter (\<lambda>(name, value). name \<notin> {''allowlist'', ''denylist''}) kvs) (attrs s)\<rparr>"
    and ok: "list_all (\<lambda>(name, value). \<not> class_attribute name)
                 (filter (\<lambda>(name, value). name \<notin> {''allowlist'', ''denylist''}) kvs)"
    by (auto simp: load_def Let_def split: json.splits option.splits sum.splits if_splits)
  let ?rest = "filter (\<lambda>(name, value). name \<notin> {''allowlist'', ''denylist''}) kvs"
  have "distinct (map fst (attrs s'))"
    using assms(2) unfolding s' by (simp add: proper_def distinct_fold_update)
  moreover have "\<not> class_attribute k" if "k \<in> fst ` set (attrs s')" for k
  proof -
    from that have "k \<in> fst ` set (attrs s) \<union> fst ` set ?rest"
      unfolding s' by (simp add: keys_fold_update)
    then show ?thesis using assms(2) ok by (auto simp: proper_def list_all_iff)
  qed
  ultimately show ?thesis by (force simp: proper_def list_all_iff)
qed

lemma init_proper:
  assumes "init a isf now stored = Built s"
  shows "proper s"
proof -
  have c: "\<not> class_attribute ''auto_clean''" by (simp add: class_attribute_def)
  show ?thesis
  proof (cases "arg_required_config a \<and> stored \<noteq> None")
    case True
    then obtain j s0 where "load j s0 = Built s" "attrs s0 = [(''auto_clean'', JBool (arg_auto_clean a))]"
      using assms by (auto simp: init_def Let_def split: filetext.splits option.splits)
    moreover from this(2) c have "proper s0" by (simp add: proper_def)
    ultimately show ?thesis by (auto intro: load_proper)
  next
    case False
    with assms c show ?thesis by (auto simp: init_def Let_def proper_def split: if_splits)
  qed
qed

lemma load_info:
  assumes "proper s" and "finite (allowlist s)" and "finite (denylist s)"
  shows "load (info s) s0 =
     Built (s0\<lparr>allowlist := allowlist s0 \<union> allowlist s, denylist := denylist s,
               attrs := fold (\<lambda>(name, value). AList.update name value) (public s) (attrs s0)\<rparr>)"
proof -
  let ?kvs = "[(''allowlist'', JList (map JStr (sorted_list_of_set (allowlist s)))),
            (''denylist'', JList (map JStr (sorted_list_of_set (denylist s))))] @ public s"
  have rest: "filter (\<lambda>(name, value). name \<notin> {''allowlist'', ''denylist''}) ?kvs = public s"
    using filter_public [of s] by simp
  have ok: "list_all (\<lambda>(name, value). \<not> class_attribute name) (public s)"
    using assms(1) by (auto simp: proper_def public_def list_all_iff)
  have a: "map_of ?kvs ''allowlist'' = Some (JList (map JStr (sorted_list_of_set (allowlist s))))"
    and d: "map_of ?kvs ''denylist'' = Some (JList (map JStr (sorted_list_of_set (denylist s))))"
    by simp_all
  show ?thesis
    unfolding info_public load_def json.case a d option.case added_strings sum.case rest Let_def
    using ok assms(2,3) by (auto simp: strings_back list_all_iff)
qed

lemma sorted_DEFAULT_DENYLIST:
  "sorted_list_of_set DEFAULT_DENYLIST = [''.vscode'', ''.zip'', ''__pycache__'']"
proof -
  have eq: "DEFAULT_DENYLIST = set [''__pycache__'', ''.vscode'', ''.zip'']"
    by (simp add: DEFAULT_DENYLIST_def)
  show ?thesis unfolding eq sorted_list_of_set_sort_remdups by simp
qed

lemma info_session_proj: "info session_proj = record_proj"
  by (simp add: info_def session_proj_def record_proj_def sorted_DEFAULT_DENYLIST)

lemma init_args_proj_record:
  "init args_proj False \<lparr>year = 2023, month = 12, day = 10\<rparr> (Some (Json record_proj))
     = Built session_proj"
  by (simp add: init_def args_proj_def session_proj_def basename_def strftime_def digit_def
      joinpath_def Let_def load_def record_proj_def added_def class_attribute_def
      DEFAULT_DENYLIST_def insert_commute)

lemma update_absent: "map_of al k = None \<Longrightarrow> AList.update k v al = al @ [(k, v)]"
  by (induction al) auto

lemma public_distinct: "proper s \<Longrightarrow> distinct (map fst (public s))"
  unfolding proper_def public_def by (auto intro: distinct_map_filter)

lemma records_after:
  "records (world_after (compress s w t rnd deflate)) =
     (if required_config s then AList.update (cache s) (Json (info s)) (records w)
      else records w)"
  by (auto simp: compress_def Let_def save_config_def
      split: sum.splits option.splits prod.splits)

text \<open>
  C4: for every session with the require-config flag set whose config record does not
  exist yet, \<^verbatim>\<open>compress\<close> appends exactly one record to the cache, the value of \<^verbatim>\<open>info\<close>, and
  returns \<^verbatim>\<open>None\<close>: the entries of the destination directory and the name of the temporary
  file are as they were, so no archive is written and no temporary file is made. The record
  captures the state of the session: a session constructed from it with the require-config
  flag has the allow set, the deny set and every public attribute of the session that
  wrote it.
\<close>

theorem compress_config_gate:
  assumes "required_config s" and "map_of (records w) (cache s) = None"
  shows "compress s w t rnd deflate =
           \<lparr>after = s, world_after = w\<lparr>records := records w @ [(cache s, Json (info s))]\<rparr>,
            printed = [Constructing (save s @ ''/'' @ arcname s), ConfigConstructed (cache s)],
            result = Inr ReturnsNone\<rparr>
       \<and> (proper s \<and> finite (allowlist s) \<and> finite (denylist s) \<and> arg_required_config a \<longrightarrow>
           (\<exists>s'. init a target_is_file now (Some (Json (info s))) = Built s'
              \<and> allowlist s' = allowlist s \<and> denylist s' = denylist s
              \<and> (\<forall>(key, value) \<in> set (public s). map_of (attrs s') key = Some value)))"
proof (intro conjI impI)
  show "compress s w t rnd deflate =
           \<lparr>after = s, world_after = w\<lparr>records := records w @ [(cache s, Json (info s))]\<rparr>,
            printed = [Constructing (save s @ ''/'' @ arcname s), ConfigConstructed (cache s)],
            result = Inr ReturnsNone\<rparr>"
    using assms by (simp add: compress_def save_config_def update_absent)
next
  assume h: "proper s \<and> finite (allowlist s) \<and> finite (denylist s) \<and> arg_required_config a"
  let ?pub = "fold (\<lambda>(name, value). AList.update name value) (public s)
      [(''auto_clean'', JBool (arg_auto_clean a))]"
  from h obtain s' where s': "init a target_is_file now (Some (Json (info s))) = Built s'"
    "allowlist s' = allowlist s" "denylist s' = denylist s" "attrs s' = ?pub"
    by (simp add: init_def Let_def load_info)
  have "map_of (attrs s') key = Some value" if "(key, value) \<in> set (public s)" for key "value"
  proof -
    from h have d: "distinct (map fst (public s))" by (simp add: public_distinct)
    then have "map_of (public s) key = Some value" using that by simp
    then show ?thesis unfolding s'(4) map_of_fold_update [OF d] by (simp add: map_add_def)
  qed
  with s' show "\<exists>s'. init a target_is_file now (Some (Json (info s))) = Built s'
              \<and> allowlist s' = allowlist s \<and> denylist s' = denylist s
              \<and> (\<forall>(key, value) \<in> set (public s). map_of (attrs s') key = Some value)"
    by auto
qed

theorem compress_config_gate_witness:
  "required_config session_proj
   \<and> map_of (records world_new) (cache session_proj) = None
   \<and> compress session_proj world_new project [''k3j_x9ab''] (\<lambda>f. 0) =
       \<lparr>after = session_proj,
        world_after = \<lparr>entries = [(''cache'', Folder)],
                       records = [(''/backup/cache/proj.json'', Json record_proj)],
                       NAMEDTEMPORARYFILE_NAME = None\<rparr>,
        printed = [Constructing ''/backup/2023-12-10-proj.zip'',
                   ConfigConstructed ''/backup/cache/proj.json''],
        result = Inr ReturnsNone\<rparr>
   \<and> init args_proj False \<lparr>year = 2023, month = 12, day = 10\<rparr> (Some (Json record_proj))
       = Built session_proj"
proof -
  have 1: "required_config session_proj" by (simp add: session_proj_def)
  have 2: "map_of (records world_new) (cache session_proj) = None" by (simp add: world_new_def)
  from compress_config_gate [OF 1 2, of project "[''k3j_x9ab'']" "\<lambda>f. 0"]
  have "compress session_proj world_new project [''k3j_x9ab''] (\<lambda>f. 0) =
       \<lparr>after = session_proj,
        world_after = world_new\<lparr>records := records world_new
           @ [(cache session_proj, Json (info session_proj))]\<rparr>,
        printed = [Constructing (save session_proj @ ''/'' @ arcname session_proj),
                   ConfigConstructed (cache session_proj)],
        result = Inr ReturnsNone\<rparr>" by blast
  then have 3: "compress session_proj world_new project [''k3j_x9ab''] (\<lambda>f. 0) =
       \<lparr>after = session_proj,
        world_after = \<lparr>entries = [(''cache'', Folder)],
                       records = [(''/backup/cache/proj.json'', Json record_proj)],
                       NAMEDTEMPORARYFILE_NAME = None\<rparr>,
        printed = [Constructing ''/backup/2023-12-10-proj.zip'',
                   ConfigConstructed ''/backup/cache/proj.json''],
        result = Inr ReturnsNone\<rparr>"
    by (simp add: info_session_proj world_new_def) (simp add: session_proj_def)
  from 1 2 3 init_args_proj_record show ?thesis by simp
qed

section \<open>The constructor and the config record\<close>

lemma init_args_force:
  "init args_force False \<lparr>year = 2023, month = 12, day = 10\<rparr> (Some (Json record_off))
     = Built session_force"
  by (simp add: init_def args_force_def session_force_def basename_def strftime_def digit_def
      joinpath_def Let_def)

lemma init_args_proj_off:
  "init args_proj False \<lparr>year = 2023, month = 12, day = 10\<rparr> (Some (Json record_off))
     = Built (session_proj\<lparr>allowlist := {''keep''}, denylist := {''node_modules''},
                attrs := [(''auto_clean'', JBool False)]\<rparr>)"
  by (simp add: init_def args_proj_def session_proj_def basename_def strftime_def digit_def
      joinpath_def Let_def load_def record_off_def added_def class_attribute_def)

lemma load_well_formed:
  assumes "map_of kvs ''allowlist'' = Some pa" and "added pa = Inr (map JStr as)"
    and "map_of kvs ''denylist'' = Some pd" and "added pd = Inr (map JStr ds)"
    and "\<forall>(k, v) \<in> set kvs. \<not> class_attribute k"
  shows "load (JObj kvs) s =
     Built (s\<lparr>allowlist := allowlist s \<union> set as, denylist := set ds,
              attrs := fold (\<lambda>(name, value). AList.update name value)
                 (filter (\<lambda>(name, value). name \<notin> {''allowlist'', ''denylist''}) kvs) (attrs s)\<rparr>)"
proof -
  have "list_all (\<lambda>(name, value). \<not> class_attribute name)
      (filter (\<lambda>(name, value). name \<notin> {''allowlist'', ''denylist''}) kvs)"
    using assms(5) by (auto simp: list_all_iff)
  moreover have "list_all is_str (map JStr as @ map JStr ds)"
    using strings_back(1) [of "as @ ds"] by simp
  ultimately show ?thesis
    unfolding load_def json.case assms(1,2,3,4) option.case sum.case Let_def
    by (simp add: strings_back del: list_all_append)
qed

text \<open>
  C3, as the code has it: a record that is loaded replaces the built-in deny list, and
  without the require-config flag the record is not read. The record holds the allow
  pattern \<^verbatim>\<open>keep\<close> and the deny pattern \<^verbatim>\<open>node_modules\<close>: constructed with the flag, the
  session's deny set is \<^verbatim>\<open>node_modules\<close> alone, without the built-in \<^verbatim>\<open>__pycache__\<close>;
  constructed without the flag, its allow set is empty and its deny set is the built-in
  one, without \<^verbatim>\<open>node_modules\<close>.
\<close>

theorem init_replaces_defaults:
  "init args_proj False \<lparr>year = 2023, month = 12, day = 10\<rparr> (Some (Json record_off))
     = Built (session_proj\<lparr>allowlist := {''keep''}, denylist := {''node_modules''},
                attrs := [(''auto_clean'', JBool False)]\<rparr>)
   \<and> ''__pycache__'' \<in> DEFAULT_DENYLIST
   \<and> ''__pycache__'' \<notin> {''node_modules''}
   \<and> init args_force False \<lparr>year = 2023, month = 12, day = 10\<rparr> (Some (Json record_off))
       = Built session_force
   \<and> allowlist session_force = {}
   \<and> ''node_modules'' \<notin> denylist session_force"
  by (simp add: init_args_proj_off init_args_force)
     (simp add: session_force_def DEFAULT_DENYLIST_def)

text \<open>
  C3, amended: for every construction with the require-config flag set against a target
  whose config record exists and is an object whose allow list and deny list are a string
  or a list of strings and whose keys name no attribute of the class, the allow set after
  construction is exactly the record's allow list entries and the deny set exactly the
  record's deny list entries: the built-in deny list is not merged in. Without the flag,
  or when no record exists, the constructor reads no record: the allow set is empty and
  the deny set is the built-in deny list.
\<close>

theorem init_filter_sets:
  "(\<not> arg_required_config a \<or> stored = None \<longrightarrow>
      (\<exists>s. init a target_is_file now stored = Built s
         \<and> allowlist s = {} \<and> denylist s = DEFAULT_DENYLIST))
   \<and> (arg_required_config a \<and> stored = Some (Json (JObj kvs))
        \<and> map_of kvs ''allowlist'' = Some pa \<and> added pa = Inr (map JStr as)
        \<and> map_of kvs ''denylist'' = Some pd \<and> added pd = Inr (map JStr ds)
        \<and> (\<forall>(k, v) \<in> set kvs. \<not> class_attribute k) \<longrightarrow>
      (\<exists>s. init a target_is_file now stored = Built s
         \<and> allowlist s = set as \<and> denylist s = set ds))"
proof (intro conjI impI)
  assume "\<not> arg_required_config a \<or> stored = None"
  then show "\<exists>s. init a target_is_file now stored = Built s
         \<and> allowlist s = {} \<and> denylist s = DEFAULT_DENYLIST"
    by (auto simp: init_def Let_def)
next
  assume h: "arg_required_config a \<and> stored = Some (Json (JObj kvs))
        \<and> map_of kvs ''allowlist'' = Some pa \<and> added pa = Inr (map JStr as)
        \<and> map_of kvs ''denylist'' = Some pd \<and> added pd = Inr (map JStr ds)
        \<and> (\<forall>(k, v) \<in> set kvs. \<not> class_attribute k)"
  then have "load (JObj kvs) s =
     Built (s\<lparr>allowlist := allowlist s \<union> set as, denylist := set ds,
              attrs := fold (\<lambda>(name, value). AList.update name value)
                 (filter (\<lambda>(name, value). name \<notin> {''allowlist'', ''denylist''}) kvs) (attrs s)\<rparr>)"
    for s by (intro load_well_formed) auto
  with h show "\<exists>s. init a target_is_file now stored = Built s
         \<and> allowlist s = set as \<and> denylist s = set ds"
    by (simp add: init_def Let_def)
qed

theorem init_filter_sets_witness:
  "arg_required_config args_proj
   \<and> map_of [(''allowlist'', JList [JStr ''keep'']), (''denylist'', JList [JStr ''node_modules'']),
        (''auto_clean'', JBool False)] ''denylist'' = Some (JList [JStr ''node_modules''])
   \<and> added (JList [JStr ''node_modules'']) = Inr [JStr ''node_modules'']
   \<and> init args_proj False \<lparr>year = 2023, month = 12, day = 10\<rparr> (Some (Json record_off))
       = Built (session_proj\<lparr>allowlist := {''keep''}, denylist := {''node_modules''},
                  attrs := [(''auto_clean'', JBool False)]\<rparr>)
   \<and> \<not> arg_required_config args_force
   \<and> init args_force False \<lparr>year = 2023, month = 12, day = 10\<rparr> (Some (Json record_off))
       = Built session_force
   \<and> allowlist session_force = {} \<and> denylist session_force = DEFAULT_DENYLIST"
proof -
  let ?kvs = "[(''allowlist'', JList [JStr ''keep'']), (''denylist'', JList [JStr ''node_modules'']),
        (''auto_clean'', JBool False)]"
  let ?now = "\<lparr>year = 2023, month = 12, day = 10\<rparr>"
  have 1: "arg_required_config args_proj" by (simp add: args_proj_def)
  have 2: "map_of ?kvs ''allowlist'' = Some (JList [JStr ''keep''])"
    "map_of ?kvs ''denylist'' = Some (JList [JStr ''node_modules''])" by simp_all
  have 3: "added (JList [JStr ''keep'']) = Inr (map JStr [''keep''])"
    "added (JList [JStr ''node_modules'']) = Inr (map JStr [''node_modules''])"
    by (simp_all add: added_def)
  have 4: "\<forall>(k, v) \<in> set ?kvs. \<not> class_attribute k" by (simp add: class_attribute_def)
  have 5: "Some (Json record_off) = Some (Json (JObj ?kvs))" by (simp add: record_off_def)
  from init_filter_sets [of args_proj "Some (Json record_off)" False ?now ?kvs
      "JList [JStr ''keep'']" "[''keep'']" "JList [JStr ''node_modules'']" "[''node_modules'']"]
    1 2 3 4 5
  obtain s where s: "init args_proj False ?now (Some (Json record_off)) = Built s"
    "allowlist s = set [''keep'']" "denylist s = set [''node_modules'']" by blast
  have 6: "\<not> arg_required_config args_force" by (simp add: args_force_def)
  from init_filter_sets [of args_force "Some (Json record_off)" False ?now] 6
  obtain s' where s': "init args_force False ?now (Some (Json record_off)) = Built s'"
    "allowlist s' = {}" "denylist s' = DEFAULT_DENYLIST" by blast
  from s' have 7: "allowlist session_force = {}" "denylist session_force = DEFAULT_DENYLIST"
    by (simp_all add: init_args_force)
  from 1 2 3 6 7 init_args_proj_off init_args_force show ?thesis by simp
qed

section \<open>The settings bag\<close>

lemma compress_session_force:
  "compress session_force world_off project_small [''k3j_x9ab''] (\<lambda>f. 2) =
     \<lparr>after = session_force\<lparr>depth_counter := 2\<rparr>,
      world_after = \<lparr>entries = [(''cache'', Folder),
                       (''2023-12-10-proj.zip'', Regular [(''proj/'', 0), (''proj/a.txt'', 5)])],
                     records = [(''/backup/cache/proj.json'', Json record_off)],
                     NAMEDTEMPORARYFILE_NAME = None\<rparr>,
      printed = [Constructing ''/backup/2023-12-10-proj.zip'',
                 Stored ''proj/'' None, Stored ''proj/a.txt'' (Some (5, 2)),
                 TotalDeflate 4101 2, MaxDepth 2, Triggered, Done],
      result = Inr ReturnsSelf\<rparr>"
  by code_simp

lemma info_auto_clean:
  "\<exists>kvs. info s = JObj kvs \<and> map_of kvs ''auto_clean'' = map_of (attrs s) ''auto_clean''"
proof -
  have "map_of (filter (\<lambda>(key, value). P key) al) k = map_of al k" if "P k"
    for P :: "string \<Rightarrow> bool" and al :: "(string \<times> json) list" and k
    using that by (induction al) auto
  from this [of "\<lambda>key. \<not> startswith key ''_'' \<and> key \<notin> {''allowlist'', ''denylist''}"
      "''auto_clean''" "attrs s"]
  show ?thesis by (simp add: info_def)
qed

text \<open>
  C10, as the code has it: without the require-config flag \<^verbatim>\<open>compress\<close> archives the target
  and returns the session, and the record in the cache is as it was, \<^verbatim>\<open>auto_clean\<close>
  switched off in it while it is on in the session; and the constructor, called without
  the flag against that record, keeps its argument.
\<close>

theorem auto_clean_not_persisted:
  "\<not> required_config session_force
   \<and> result (compress session_force world_off project_small [''k3j_x9ab''] (\<lambda>f. 2))
       = Inr ReturnsSelf
   \<and> records (world_after
        (compress session_force world_off project_small [''k3j_x9ab''] (\<lambda>f. 2)))
       = [(''/backup/cache/proj.json'', Json record_off)]
   \<and> map_of (attrs session_force) ''auto_clean'' = Some (JBool True)
   \<and> record_off = JObj [(''allowlist'', JList [JStr ''keep'']),
        (''denylist'', JList [JStr ''node_modules'']), (''auto_clean'', JBool False)]
   \<and> arg_auto_clean args_force
   \<and> init args_force False \<lparr>year = 2023, month = 12, day = 10\<rparr> (Some (Json record_off))
       = Built session_force"
  by (simp add: compress_session_force init_args_force)
     (simp add: session_force_def record_off_def args_force_def)

text \<open>
  C10, amended: \<^verbatim>\<open>info\<close> holds the session's \<^verbatim>\<open>auto_clean\<close> value. Every \<^verbatim>\<open>compress\<close> of a session
  with the require-config flag set, whatever its outcome, leaves the value of \<^verbatim>\<open>info\<close> as
  the config record; with the flag unset it leaves the records as they were. Every
  construction with the flag set against an existing record (an object with pairwise
  different keys, allow list and deny list as in C3, no key the name of an attribute of
  the class) that holds a key \<^verbatim>\<open>auto_clean\<close> gives the session the record's value, whatever
  the argument was; with the flag unset the session has the argument's value.
\<close>

theorem auto_clean_persisted:
  "(\<exists>kvs'. info s = JObj kvs' \<and> map_of kvs' ''auto_clean'' = map_of (attrs s) ''auto_clean'')
   \<and> (required_config s \<longrightarrow>
        map_of (records (world_after (compress s w t rnd deflate))) (cache s)
          = Some (Json (info s)))
   \<and> (\<not> required_config s \<longrightarrow>
        records (world_after (compress s w t rnd deflate)) = records w)
   \<and> (arg_required_config a \<and> stored = Some (Json (JObj kvs)) \<and> distinct (map fst kvs)
        \<and> map_of kvs ''allowlist'' = Some pa \<and> added pa = Inr (map JStr as)
        \<and> map_of kvs ''denylist'' = Some pd \<and> added pd = Inr (map JStr ds)
        \<and> (\<forall>(k, v) \<in> set kvs. \<not> class_attribute k)
        \<and> map_of kvs ''auto_clean'' = Some v \<longrightarrow>
      (\<exists>s'. init a target_is_file now stored = Built s'
         \<and> map_of (attrs s') ''auto_clean'' = Some v))
   \<and> (\<not> arg_required_config a \<longrightarrow>
      (\<exists>s'. init a target_is_file now stored = Built s'
         \<and> map_of (attrs s') ''auto_clean'' = Some (JBool (arg_auto_clean a))))"
proof (intro conjI impI)
  show "\<exists>kvs'. info s = JObj kvs' \<and> map_of kvs' ''auto_clean'' = map_of (attrs s) ''auto_clean''"
    by (rule info_auto_clean)
next
  assume "required_config s"
  then show "map_of (records (world_after (compress s w t rnd deflate))) (cache s)
      = Some (Json (info s))"
    by (simp add: records_after update_conv')
next
  assume "\<not> required_config s"
  then show "records (world_after (compress s w t rnd deflate)) = records w"
    by (simp add: records_after)
next
  assume h: "arg_required_config a \<and> stored = Some (Json (JObj kvs)) \<and> distinct (map fst kvs)
        \<and> map_of kvs ''allowlist'' = Some pa \<and> added pa = Inr (map JStr as)
        \<and> map_of kvs ''denylist'' = Some pd \<and> added pd = Inr (map JStr ds)
        \<and> (\<forall>(k, v) \<in> set kvs. \<not> class_attribute k)
        \<and> map_of kvs ''auto_clean'' = Some v"
  let ?rest = "filter (\<lambda>(name, value). name \<notin> {''allowlist'', ''denylist''}) kvs"
  let ?attrs = "fold (\<lambda>(name, value). AList.update name value) ?rest
      [(''auto_clean'', JBool (arg_auto_clean a))]"
  from h have l: "load (JObj kvs) s0 =
     Built (s0\<lparr>allowlist := allowlist s0 \<union> set as, denylist := set ds,
              attrs := fold (\<lambda>(name, value). AList.update name value) ?rest (attrs s0)\<rparr>)"
    for s0 by (intro load_well_formed) auto
  from h have d: "distinct (map fst ?rest)" by (simp add: distinct_map_filter)
  from h have "(''auto_clean'', v) \<in> set kvs" by (auto dest: map_of_SomeD)
  then have "(''auto_clean'', v) \<in> set ?rest" by simp
  with d have "map_of ?rest ''auto_clean'' = Some v" by simp
  then have "map_of ?attrs ''auto_clean'' = Some v"
    unfolding map_of_fold_update [OF d] by (simp add: map_add_def)
  with h l show "\<exists>s'. init a target_is_file now stored = Built s'
         \<and> map_of (attrs s') ''auto_clean'' = Some v"
    by (simp add: init_def Let_def)
next
  assume "\<not> arg_required_config a"
  then show "\<exists>s'. init a target_is_file now stored = Built s'
         \<and> map_of (attrs s') ''auto_clean'' = Some (JBool (arg_auto_clean a))"
    by (simp add: init_def Let_def)
qed

theorem auto_clean_persisted_witness:
  "required_config session_proj
   \<and> map_of (records (world_after
         (compress session_proj world_new project_small [''k3j_x9ab''] (\<lambda>f. 2))))
       ''/backup/cache/proj.json'' = Some (Json record_proj)
   \<and> map_of [(''allowlist'', JList []),
        (''denylist'', JList [JStr ''.vscode'', JStr ''.zip'', JStr ''__pycache__'']),
        (''auto_clean'', JBool True)] ''auto_clean'' = Some (JBool True)
   \<and> arg_required_config args_proj
   \<and> map_of [(''allowlist'', JList [JStr ''keep'']), (''denylist'', JList [JStr ''node_modules'']),
        (''auto_clean'', JBool False)] ''auto_clean'' = Some (JBool False)
   \<and> arg_auto_clean args_proj
   \<and> init args_proj False \<lparr>year = 2023, month = 12, day = 10\<rparr> (Some (Json record_off))
       = Built (session_proj\<lparr>allowlist := {''keep''}, denylist := {''node_modules''},
                  attrs := [(''auto_clean'', JBool False)]\<rparr>)"
proof -
  let ?kvs = "[(''allowlist'', JList [JStr ''keep'']), (''denylist'', JList [JStr ''node_modules'']),
        (''auto_clean'', JBool False)]"
  let ?now = "\<lparr>year = 2023, month = 12, day = 10\<rparr>"
  note inst = auto_clean_persisted [of session_proj world_new project_small "[''k3j_x9ab'']"
      "\<lambda>f. 2" args_proj "Some (Json record_off)" ?kvs "JList [JStr ''keep'']" "[''keep'']"
      "JList [JStr ''node_modules'']" "[''node_modules'']" "JBool False" False ?now]
  have 1: "required_config session_proj" by (simp add: session_proj_def)
  from inst 1 have "map_of (records (world_after
         (compress session_proj world_new project_small [''k3j_x9ab''] (\<lambda>f. 2))))
       (cache session_proj) = Some (Json (info session_proj))" by blast
  then have 2: "map_of (records (world_after
         (compress session_proj world_new project_small [''k3j_x9ab''] (\<lambda>f. 2))))
       ''/backup/cache/proj.json'' = Some (Json record_proj)"
    by (simp add: info_session_proj) (simp add: session_proj_def)
  have 3: "arg_required_config args_proj" "arg_auto_clean args_proj"
    by (simp_all add: args_proj_def)
  have 4: "Some (Json record_off) = Some (Json (JObj ?kvs))" "distinct (map fst ?kvs)"
    "map_of ?kvs ''allowlist'' = Some (JList [JStr ''keep''])"
    "added (JList [JStr ''keep'']) = Inr (map JStr [''keep''])"
    "map_of ?kvs ''denylist'' = Some (JList [JStr ''node_modules''])"
    "added (JList [JStr ''node_modules'']) = Inr (map JStr [''node_modules''])"
    "\<forall>(k, v) \<in> set ?kvs. \<not> class_attribute k"
    "map_of ?kvs ''auto_clean'' = Some (JBool False)"
    by (simp_all add: record_off_def added_def class_attribute_def)
  from inst 3(1) 4 obtain s' where "init args_proj False ?now (Some (Json record_off)) = Built s'"
    "map_of (attrs s') ''auto_clean'' = Some (JBool False)" by blast
  from 1 2 3 4(8) init_args_proj_off show ?thesis by simp
qed

section \<open>The preview\<close>












end
